theory Spec2Isabelle
  imports Complex_Main
begin

section \<open>JavaScript values and string helpers\<close>

text \<open>
  Span attributes are arbitrary JSON-like JavaScript values. Strings are byte strings;
  an object is the list of its own enumerable entries in the order \<open>Object.entries\<close>
  returns them. A number is a finite real, one of the two infinities or NaN; only its
  truthiness matters to the exporter.
\<close>

datatype jsnumber = Finite real | PosInfinity | NegInfinity | NaN

datatype jsval =
    JNull
  | JUndefined
  | JBool bool
  | JNum jsnumber
  | JStr string
  | JArr "jsval list"
  | JObj "(string \<times> jsval) list"

text \<open>\<open>!value\<close> is true for null, undefined, false, 0, NaN and the empty string.\<close>

fun truthy :: "jsval \<Rightarrow> bool" where
  "truthy JNull = False"
| "truthy JUndefined = False"
| "truthy (JBool b) = b"
| "truthy (JNum (Finite x)) = (x \<noteq> 0)"
| "truthy (JNum NaN) = False"
| "truthy (JNum PosInfinity) = True"
| "truthy (JNum NegInfinity) = True"
| "truthy (JStr s) = (s \<noteq> [])"
| "truthy (JArr items) = True"
| "truthy (JObj entries) = True"

text \<open>\<open>String.prototype.toLowerCase\<close> on the ASCII range.\<close>

definition lowerChar :: "char \<Rightarrow> char" where
  "lowerChar c =
     (let n = (of_char c :: nat) in if 65 \<le> n \<and> n \<le> 90 then char_of (n + 32) else c)"

definition toLowerCase :: "string \<Rightarrow> string" where
  "toLowerCase s = map lowerChar s"

fun startsWith :: "string \<Rightarrow> string \<Rightarrow> bool" where
  "startsWith s [] = True"
| "startsWith [] (p # ps) = False"
| "startsWith (c # cs) (p # ps) = (c = p \<and> startsWith cs ps)"

fun str_includes :: "string \<Rightarrow> string \<Rightarrow> bool" where
  "str_includes [] pat = (pat = [])"
| "str_includes (c # cs) pat = (startsWith (c # cs) pat \<or> str_includes cs pat)"

text \<open>\<open>s.split(d)\<close> for a one-character separator: never empty, \<open>"".split(".") = [""]\<close>.\<close>

fun str_split :: "char \<Rightarrow> string \<Rightarrow> string list" where
  "str_split d [] = [[]]"
| "str_split d (c # cs) =
     (if c = d then [] # str_split d cs
      else (case str_split d cs of [] \<Rightarrow> [[c]] | p # ps \<Rightarrow> (c # p) # ps))"

text \<open>\<open>String.prototype.trim\<close>, for the ASCII white space (tab to carriage return, and space).\<close>

definition isWhiteSpace :: "char \<Rightarrow> bool" where
  "isWhiteSpace c = (let n = (of_char c :: nat) in (9 \<le> n \<and> n \<le> 13) \<or> n = 32)"

definition trim :: "string \<Rightarrow> string" where
  "trim s = rev (dropWhile isWhiteSpace (rev (dropWhile isWhiteSpace s)))"

text \<open>Decimal rendering of a number inside a template literal.\<close>

fun string_of_nat :: "nat \<Rightarrow> string" where
  "string_of_nat n =
     (if n < 10 then [char_of (48 + n)]
      else string_of_nat (n div 10) @ [char_of (48 + n mod 10)])"

declare string_of_nat.simps [simp del]

text \<open>\<open>parts.join(sep)\<close>.\<close>

fun join :: "string \<Rightarrow> string list \<Rightarrow> string" where
  "join sep [] = []"
| "join sep [p] = p"
| "join sep (p # q # ps) = p @ sep @ join sep (q # ps)"

section \<open>Data filters\<close>

text \<open>
  \<open>getEnabledFilters\<close> reads the environment variable \<open>AIQA_DATA_FILTERS\<close>
  (\<open>None\<close> when unset) at every call.
\<close>

definition getEnabledFilters :: "string option \<Rightarrow> string set" where
  "getEnabledFilters env =
     (let filtersEnv = (case env of None \<Rightarrow> ''RemovePasswords, RemoveJWT''
                        | Some e \<Rightarrow> if e = [] then ''RemovePasswords, RemoveJWT'' else e)
      in if filtersEnv = [] then {}
         else set (filter (\<lambda>f. f \<noteq> []) (map trim (str_split CHR '','' filtersEnv))))"

fun isJWTToken :: "jsval \<Rightarrow> bool" where
  "isJWTToken (JStr v) =
     (let parts = str_split CHR ''.'' v
      in length parts = 3 \<and> startsWith v ''eyJ'' \<and> list_all (\<lambda>p. length p > 0) parts)"
| "isJWTToken _ = False"

definition apiKeyPrefixes :: "string list" where
  "apiKeyPrefixes = [''sk-'', ''pk-'', ''AKIA'', ''ghp_'', ''gho_'', ''ghu_'', ''ghs_'', ''ghr_'']"

fun isAPIKey :: "jsval \<Rightarrow> bool" where
  "isAPIKey (JStr v) = (let trimmed = trim v in list_ex (\<lambda>prefix. startsWith trimmed prefix) apiKeyPrefixes)"
| "isAPIKey _ = False"

definition apiKeyKeyPatterns :: "string list" where
  "apiKeyKeyPatterns = [''api_key'', ''apikey'', ''api-key'', ''apikey'']"

definition mask :: jsval where
  "mask = JStr ''****''"

definition applyDataFilters :: "string option \<Rightarrow> string \<Rightarrow> jsval \<Rightarrow> jsval" where
  "applyDataFilters env key v =
     (if \<not> truthy v then v
      else let enabledFilters = getEnabledFilters env; keyLower = toLowerCase key in
        if ''RemovePasswords'' \<in> enabledFilters \<and> str_includes keyLower ''password'' then mask
        else if ''RemoveJWT'' \<in> enabledFilters \<and> isJWTToken v then mask
        else if ''RemoveAuthHeaders'' \<in> enabledFilters \<and> keyLower = ''authorization'' then mask
        else if ''RemoveAPIKeys'' \<in> enabledFilters then
          (if list_ex (\<lambda>pattern. str_includes keyLower pattern) apiKeyKeyPatterns then mask
           else if isAPIKey v then mask
           else v)
        else v)"

text \<open>\<open>result[k] = v\<close> on an object given by its entries: an existing key keeps its place.\<close>

fun setProperty :: "(string \<times> jsval) list \<Rightarrow> string \<Rightarrow> jsval \<Rightarrow> (string \<times> jsval) list" where
  "setProperty [] k v = [(k, v)]"
| "setProperty ((k', v') # ps) k v =
     (if k' = k then (k, v) # ps else (k', v') # setProperty ps k v)"

function filterDataRecursive :: "string option \<Rightarrow> jsval \<Rightarrow> jsval" where
  "filterDataRecursive env JNull = JNull"
| "filterDataRecursive env JUndefined = JUndefined"
| "filterDataRecursive env (JArr items) = JArr (map (filterDataRecursive env) items)"
| "filterDataRecursive env (JObj entries) =
     JObj (foldl (\<lambda>result (k, v).
                    let filteredValue = applyDataFilters env k v
                    in setProperty result k (filterDataRecursive env filteredValue))
                 [] entries)"
| "filterDataRecursive env (JBool b) = applyDataFilters env [] (JBool b)"
| "filterDataRecursive env (JNum n) = applyDataFilters env [] (JNum n)"
| "filterDataRecursive env (JStr s) = applyDataFilters env [] (JStr s)"
  by pat_completeness auto
termination
proof (relation "measure (\<lambda>(env, v). size v)")
  show "wf (measure (\<lambda>(env, v). size v))" by simp
next
  fix env :: "string option" and items :: "jsval list" and x :: jsval
  assume "x \<in> set items"
  then have "size x < size (JArr items)"
    by (induction items) auto
  then show "((env, x), (env, JArr items)) \<in> measure (\<lambda>(env, v). size v)"
    by simp
next
  fix env :: "string option" and entries :: "(string \<times> jsval) list"
    and result :: "(string \<times> jsval) list" and kv :: "string \<times> jsval"
    and k :: string and v :: jsval and fv :: jsval
  assume a: "kv \<in> set entries" "(k, v) = kv" "fv = applyDataFilters env k v"
  have "size fv \<le> size v"
    using a(3) by (simp add: applyDataFilters_def mask_def Let_def)
  moreover have "size v < size (JObj entries)"
    using a(1,2) by (induction entries) auto
  ultimately show "((env, fv), (env, JObj entries)) \<in> measure (\<lambda>(env, v). size v)"
    by simp
qed

section \<open>Spans\<close>

text \<open>
  \<open>ReadableSpan\<close> is what the tracer hands to the exporter, \<open>SerializableSpan\<close> what the
  exporter buffers. Optional attributes are \<open>JUndefined\<close> when absent.
\<close>

record SpanLink =
  linkTraceId :: string
  linkSpanId :: string
  linkAttributes :: jsval

record SpanEvent =
  eventName :: string
  eventTime :: "nat \<times> nat"
  eventAttributes :: jsval

record ReadableSpan =
  rs_name :: string
  rs_kind :: nat
  rs_parentSpanId :: "string option"
  rs_startTime :: "nat \<times> nat"
  rs_endTime :: "nat \<times> nat"
  rs_statusCode :: nat
  rs_statusMessage :: "string option"
  rs_attributes :: jsval
  rs_links :: "SpanLink list"
  rs_events :: "SpanEvent list"
  rs_resourceAttributes :: jsval
  rs_traceId :: string
  rs_spanId :: string
  rs_traceFlags :: nat
  rs_duration :: "nat \<times> nat"
  rs_ended :: bool
  rs_instrumentationLibrary :: "string \<times> string option"

record SerializableSpan =
  name :: string
  kind :: nat
  parentSpanId :: "string option"
  startTime :: "nat \<times> nat"
  endTime :: "nat \<times> nat"
  statusCode :: nat
  statusMessage :: "string option"
  attributes :: jsval
  links :: "SpanLink list"
  events :: "SpanEvent list"
  resourceAttributes :: jsval
  traceId :: string
  spanId :: string
  traceFlags :: nat
  duration :: "nat \<times> nat"
  ended :: bool
  instrumentationLibrary :: "string \<times> string option"

definition serializeSpan :: "string option \<Rightarrow> ReadableSpan \<Rightarrow> SerializableSpan" where
  "serializeSpan env sp =
     \<lparr> name = rs_name sp,
       kind = rs_kind sp,
       parentSpanId = rs_parentSpanId sp,
       startTime = rs_startTime sp,
       endTime = rs_endTime sp,
       statusCode = rs_statusCode sp,
       statusMessage = rs_statusMessage sp,
       attributes = filterDataRecursive env (rs_attributes sp),
       links = map (\<lambda>link. \<lparr> linkTraceId = linkTraceId link, linkSpanId = linkSpanId link,
                                linkAttributes = filterDataRecursive env (linkAttributes link) \<rparr>)
                   (rs_links sp),
       events = map (\<lambda>event. \<lparr> eventName = eventName event, eventTime = eventTime event,
                                  eventAttributes = filterDataRecursive env (eventAttributes event) \<rparr>)
                    (rs_events sp),
       resourceAttributes = filterDataRecursive env (rs_resourceAttributes sp),
       traceId = rs_traceId sp,
       spanId = rs_spanId sp,
       traceFlags = rs_traceFlags sp,
       duration = rs_duration sp,
       ended = rs_ended sp,
       instrumentationLibrary = rs_instrumentationLibrary sp \<rparr>"

text \<open>The tracking key \<open>`${traceId}:${spanId}`\<close>.\<close>

definition spanKey :: "SerializableSpan \<Rightarrow> string" where
  "spanKey sp = traceId sp @ '':'' @ spanId sp"

section \<open>The exporter\<close>

datatype level = ConsoleWarn | ConsoleError | ConsoleLog | ConsoleDebug

type_synonym console = "(level \<times> string) list"

record AIQASpanExporter =
  serverUrl :: string
  apiKey :: string
  flushIntervalMs :: nat
  maxBatchSizeBytes :: nat
  maxBufferSpans :: nat
  buffer :: "SerializableSpan list"
  bufferSpanKeys :: "string set"
  flushTimer :: bool
  shutdownRequested :: bool

text \<open>The constructor: one trailing slash of the URL is removed, the timer is started.\<close>

definition newExporter :: "string \<Rightarrow> string \<Rightarrow> nat \<Rightarrow> AIQASpanExporter" where
  "newExporter url key flushIntervalSeconds =
     \<lparr> serverUrl = (if url \<noteq> [] \<and> last url = CHR ''/'' then butlast url else url),
       apiKey = key,
       flushIntervalMs = flushIntervalSeconds * 1000,
       maxBatchSizeBytes = 5 * 1024 * 1024,
       maxBufferSpans = 10000,
       buffer = [],
       bufferSpanKeys = {},
       flushTimer = True,
       shutdownRequested = False \<rparr>"

subsection \<open>addToBuffer and export\<close>

text \<open>
  The locals of \<open>addToBuffer\<close>'s loop and the loop's body. The loop adds keys to
  \<open>bufferSpanKeys\<close> but collects the spans in \<open>serializedSpans\<close>; \<open>this.buffer\<close> is
  pushed to after the loop.
\<close>

record AddLocals =
  exporter :: AIQASpanExporter
  duplicatesCount :: nat
  droppedCount :: nat
  serializedSpans :: "SerializableSpan list"

definition addToBuffer_step :: "string option \<Rightarrow> AddLocals \<Rightarrow> ReadableSpan \<Rightarrow> AddLocals" where
  "addToBuffer_step env l sp =
     (if length (buffer (exporter l)) \<ge> maxBufferSpans (exporter l)
      then l\<lparr>droppedCount := droppedCount l + 1\<rparr>
      else
        let serialized = serializeSpan env sp;
            key = spanKey serialized
        in if key \<notin> bufferSpanKeys (exporter l)
           then l\<lparr>serializedSpans := serializedSpans l @ [serialized],
                  exporter := (exporter l)\<lparr>bufferSpanKeys := insert key (bufferSpanKeys (exporter l))\<rparr>\<rparr>
           else l\<lparr>duplicatesCount := duplicatesCount l + 1\<rparr>)"

text \<open>
  \<open>addToBuffer\<close> returns nothing in the source; the model returns the loop's locals after
  the final push (the exporter in them is the updated \<open>this\<close>) and the console lines.
\<close>

definition addToBuffer :: "string option \<Rightarrow> AIQASpanExporter \<Rightarrow> ReadableSpan list \<Rightarrow> AddLocals \<times> console" where
  "addToBuffer env this spans =
     (let l = foldl (addToBuffer_step env)
                     \<lparr>exporter = this, duplicatesCount = 0, droppedCount = 0, serializedSpans = []\<rparr>
                     spans;
          this' = (exporter l)\<lparr>buffer := buffer (exporter l) @ serializedSpans l\<rparr>;
          c1 = (if droppedCount l > 0
                then [(ConsoleWarn, ''AIQA: WARNING: Buffer full ('' @ string_of_nat (length (buffer this'))
                        @ '' spans), dropped '' @ string_of_nat (droppedCount l) @ '' span(s). ''
                        @ ''Consider increasing maxBufferSpans or fixing server connectivity.'')]
                else []);
          c2 = (if duplicatesCount l > 0
                then [(ConsoleDebug, ''AIQA: export() added '' @ string_of_nat (length (serializedSpans l))
                        @ '' span(s) to buffer, skipped '' @ string_of_nat (duplicatesCount l)
                        @ '' duplicate(s). Total buffered: '' @ string_of_nat (length (buffer this')))]
                else [])
      in (l\<lparr>exporter := this'\<rparr>, c1 @ c2))"

datatype ExportResultCode = SUCCESS | FAILED

text \<open>
  \<open>export\<close>: every invocation of \<open>resultCallback\<close> is recorded with its code and the
  buffer as it is at that moment.
\<close>

record ExportOutcome =
  ex_this :: AIQASpanExporter
  ex_callbacks :: "(ExportResultCode \<times> SerializableSpan list) list"
  ex_console :: console

definition export :: "string option \<Rightarrow> AIQASpanExporter \<Rightarrow> ReadableSpan list \<Rightarrow> ExportOutcome" where
  "export env this spans =
     (if length spans = 0
      then \<lparr>ex_this = this, ex_callbacks = [(SUCCESS, buffer this)], ex_console = []\<rparr>
      else
        let callbacks = [(SUCCESS, buffer this)];
            (l, c) = addToBuffer env this spans
        in \<lparr>ex_this = exporter l, ex_callbacks = callbacks, ex_console = c\<rparr>)"

subsection \<open>The append rule, record by record\<close>

text \<open>
  The rule of the amended claim C4, written from its words and not from the code: each
  record is decided against the buffer as it is when the record's turn comes. The
  capacity check comes first; then a record whose key is tracked is a duplicate; any other
  record is redacted, appended, tracked and counted as accepted.
\<close>

record AppendState =
  ap_this :: AIQASpanExporter
  ap_accepted :: nat
  ap_duplicates :: nat
  ap_dropped :: nat

definition append_record :: "string option \<Rightarrow> AppendState \<Rightarrow> ReadableSpan \<Rightarrow> AppendState" where
  "append_record env a sp =
     (if maxBufferSpans (ap_this a) \<le> length (buffer (ap_this a))
      then a\<lparr>ap_dropped := ap_dropped a + 1\<rparr>
      else if spanKey (serializeSpan env sp) \<in> bufferSpanKeys (ap_this a)
      then a\<lparr>ap_duplicates := ap_duplicates a + 1\<rparr>
      else a\<lparr>ap_this := (ap_this a)
                  \<lparr>buffer := buffer (ap_this a) @ [serializeSpan env sp],
                   bufferSpanKeys := insert (spanKey (serializeSpan env sp)) (bufferSpanKeys (ap_this a))\<rparr>,
             ap_accepted := ap_accepted a + 1\<rparr>)"

definition append_records :: "string option \<Rightarrow> AIQASpanExporter \<Rightarrow> ReadableSpan list \<Rightarrow> AppendState" where
  "append_records env this spans =
     foldl (append_record env) \<lparr>ap_this = this, ap_accepted = 0, ap_duplicates = 0, ap_dropped = 0\<rparr> spans"

subsection \<open>splitIntoBatches\<close>

text \<open>
  \<open>jsonSize span\<close> stands for \<open>new Blob([JSON.stringify(span)]).size\<close>, the byte length
  of the span's JSON text.
\<close>

record SplitLocals =
  batches :: "SerializableSpan list list"
  currentBatch :: "SerializableSpan list"
  currentBatchSize :: nat
  warnings :: console

text \<open>The console warning about a span larger than the budget.\<close>

definition oversizedWarning :: "SerializableSpan \<Rightarrow> nat \<Rightarrow> nat \<Rightarrow> level \<times> string" where
  "oversizedWarning sp spanSize maxBytes =
     (ConsoleWarn, ''AIQA: Span '' @ [CHR 0x27] @ name sp @ [CHR 0x27] @ '' (traceId=''
        @ traceId sp @ '') exceeds maxBatchSizeBytes ('' @ string_of_nat spanSize
        @ '' bytes > '' @ string_of_nat maxBytes @ '' bytes). Will attempt to send it anyway.'')"

definition splitIntoBatches_step ::
  "(SerializableSpan \<Rightarrow> nat) \<Rightarrow> nat \<Rightarrow> SplitLocals \<Rightarrow> SerializableSpan \<Rightarrow> SplitLocals" where
  "splitIntoBatches_step jsonSize maxBytes l sp =
     (let spanSize = jsonSize sp in
      if spanSize > maxBytes then
        let l1 = (if length (currentBatch l) > 0
                  then l\<lparr>batches := batches l @ [currentBatch l], currentBatch := [], currentBatchSize := 0\<rparr>
                  else l);
            w = oversizedWarning sp spanSize maxBytes
        in l1\<lparr>warnings := warnings l1 @ [w], batches := batches l1 @ [[sp]]\<rparr>
      else
        let l1 = (if length (currentBatch l) > 0 \<and> currentBatchSize l + spanSize > maxBytes
                  then l\<lparr>batches := batches l @ [currentBatch l], currentBatch := [], currentBatchSize := 0\<rparr>
                  else l)
        in l1\<lparr>currentBatch := currentBatch l1 @ [sp], currentBatchSize := currentBatchSize l1 + spanSize\<rparr>)"

definition splitIntoBatches ::
  "(SerializableSpan \<Rightarrow> nat) \<Rightarrow> nat \<Rightarrow> SerializableSpan list \<Rightarrow> SerializableSpan list list \<times> console" where
  "splitIntoBatches jsonSize maxBytes spans =
     (if length spans = 0 then ([], [])
      else
        let l = foldl (splitIntoBatches_step jsonSize maxBytes)
                      \<lparr>batches = [], currentBatch = [], currentBatchSize = 0, warnings = []\<rparr>
                      spans;
            l' = (if length (currentBatch l) > 0 then l\<lparr>batches := batches l @ [currentBatch l]\<rparr> else l)
        in (batches l', warnings l'))"

subsection \<open>sendSpans and flush\<close>

text \<open>
  What \<open>fetch\<close> does is not the exporter's: it rejects with an error message, or it
  resolves with a response (status, status text, and the body text, \<open>None\<close> when reading
  the body fails). \<open>sendSpans\<close> resolves (\<open>None\<close>) or rejects with an error message.
\<close>

datatype fetchOutcome = FetchRejected string | FetchResponse nat string "string option"

definition sendSpans :: "AIQASpanExporter \<Rightarrow> fetchOutcome \<Rightarrow> string option" where
  "sendSpans this r =
     (if serverUrl this = [] then Some ''AIQA_SERVER_URL is not set. Cannot send spans to server.''
      else case r of
          FetchRejected message \<Rightarrow> Some message
        | FetchResponse status statusText body \<Rightarrow>
            if 200 \<le> status \<and> status \<le> 299 then None
            else
              let errorText = (case body of None \<Rightarrow> ''Unknown error'' | Some t \<Rightarrow> t)
              in Some (''Failed to send spans: '' @ string_of_nat status @ '' '' @ statusText
                        @ '' - '' @ errorText))"

definition removeSpanKeysFromTracking :: "AIQASpanExporter \<Rightarrow> SerializableSpan list \<Rightarrow> AIQASpanExporter" where
  "removeSpanKeysFromTracking this spans =
     foldl (\<lambda>t sp. t\<lparr>bufferSpanKeys := bufferSpanKeys t - {spanKey sp}\<rparr>) this spans"

text \<open>
  A flush suspends at every \<open>await this.sendSpans(batches[i])\<close>. The surroundings of one
  flush say, for the send of batch \<open>i\<close> (counted from 0), what \<open>fetch\<close> does with the
  body and which \<open>export\<close> calls the event loop runs while the send is awaited.
\<close>

record Surroundings =
  fetchResult :: "nat \<Rightarrow> SerializableSpan list \<Rightarrow> fetchOutcome"
  exportsDuring :: "nat \<Rightarrow> ReadableSpan list list"

definition runExports :: "string option \<Rightarrow> AIQASpanExporter \<Rightarrow> ReadableSpan list list \<Rightarrow> AIQASpanExporter" where
  "runExports env this calls = foldl (\<lambda>t spans. ex_this (export env t spans)) this calls"

record FlushLocals =
  fl_this :: AIQASpanExporter
  successfullySentSpans :: "SerializableSpan list"
  errors :: "(nat \<times> string) list"
  fl_console :: console
  fl_sendCalls :: "SerializableSpan list list"

definition flush_step ::
  "string option \<Rightarrow> Surroundings \<Rightarrow> SerializableSpan list list \<Rightarrow> FlushLocals \<Rightarrow> nat \<Rightarrow> FlushLocals" where
  "flush_step env world bs l i =
     (let settled = sendSpans (fl_this l) (fetchResult world i (bs ! i));
          this1 = runExports env (fl_this l) (exportsDuring world i);
          l1 = l\<lparr>fl_this := this1, fl_sendCalls := fl_sendCalls l @ [bs ! i]\<rparr>
      in case settled of
          None \<Rightarrow> l1\<lparr>successfullySentSpans := successfullySentSpans l1 @ bs ! i\<rparr>
        | Some message \<Rightarrow>
            let errorMsg = ''batch '' @ string_of_nat (i + 1) @ ''/'' @ string_of_nat (length bs)
                             @ '': '' @ message;
                this2 = (if i + 1 < length bs
                         then this1\<lparr>buffer := foldl (\<lambda>buf remainingBatch. buf @ remainingBatch)
                                                    (buffer this1) (drop (i + 1) bs)\<rparr>
                         else this1)
            in l1\<lparr>fl_this := this2,
                  errors := errors l1 @ [(i + 1, errorMsg)],
                  fl_console := fl_console l1 @ [(ConsoleError, ''AIQA: Error sending '' @ errorMsg)]\<rparr>)"

text \<open>The loop \<open>for (let i = 0; i < batches.length; i++)\<close> of \<open>flush\<close>.\<close>

definition flush_loop ::
  "string option \<Rightarrow> Surroundings \<Rightarrow> SerializableSpan list list \<Rightarrow> AIQASpanExporter \<Rightarrow> console
   \<Rightarrow> FlushLocals" where
  "flush_loop env world bs this0 c =
     foldl (flush_step env world bs)
       \<lparr>fl_this = this0, successfullySentSpans = [], errors = [], fl_console = c, fl_sendCalls = []\<rparr>
       [0..<length bs]"

text \<open>
  The outcome of \<open>flush\<close>: the exporter after it, the console lines, the batches handed
  to \<open>sendSpans\<close> in order, the spans of the batches whose send resolved, and whether the
  promise resolves (\<open>Inr ()\<close>) or rejects with an error message (\<open>Inl\<close>).
\<close>

record FlushOutcome =
  fo_this :: AIQASpanExporter
  fo_console :: console
  fo_sendCalls :: "SerializableSpan list list"
  fo_delivered :: "SerializableSpan list"
  fo_result :: "string + unit"

definition flush ::
  "string option \<Rightarrow> (SerializableSpan \<Rightarrow> nat) \<Rightarrow> Surroundings \<Rightarrow> AIQASpanExporter \<Rightarrow> FlushOutcome" where
  "flush env jsonSize world this =
     (let spansToFlush = buffer this;
          this0 = this\<lparr>buffer := []\<rparr>
      in if length spansToFlush = 0
         then \<lparr>fo_this = this0, fo_console = [], fo_sendCalls = [], fo_delivered = [], fo_result = Inr ()\<rparr>
         else if serverUrl this0 = []
         then \<lparr>fo_this = removeSpanKeysFromTracking this0 spansToFlush,
               fo_console = [(ConsoleWarn, ''AIQA: Skipping flush: AIQA_SERVER_URL is not set. ''
                               @ string_of_nat (length spansToFlush) @ '' span(s) will not be sent.'')],
               fo_sendCalls = [], fo_delivered = [], fo_result = Inr ()\<rparr>
         else
           let (bs, w) = splitIntoBatches jsonSize (maxBatchSizeBytes this0) spansToFlush;
               c1 = w @ (if length bs > 1
                         then [(ConsoleLog, ''AIQA: flush() splitting '' @ string_of_nat (length spansToFlush)
                                  @ '' spans into '' @ string_of_nat (length bs) @ '' batches'')]
                         else []);
               l = flush_loop env world bs this0 c1;
               this1 = (if length (successfullySentSpans l) > 0
                        then removeSpanKeysFromTracking (fl_this l) (successfullySentSpans l)
                        else fl_this l)
           in if length (errors l) > 0
              then
                let errorSummary = join ''; '' (map snd (errors l));
                    message = ''Failed to send some spans: '' @ errorSummary;
                    c2 = fl_console l @ [(ConsoleError, ''AIQA: Error flushing spans to server: '' @ message)]
                in \<lparr>fo_this = this1, fo_console = c2, fo_sendCalls = fl_sendCalls l,
                     fo_delivered = successfullySentSpans l,
                     fo_result = (if shutdownRequested this1 then Inl message else Inr ())\<rparr>
              else \<lparr>fo_this = this1, fo_console = fl_console l, fo_sendCalls = fl_sendCalls l,
                    fo_delivered = successfullySentSpans l, fo_result = Inr ()\<rparr>)"

text \<open>
  The messages \<open>batch i/n: ...\<close> of the sends that reject, in the order of the batches.
\<close>

definition sendErrors :: "AIQASpanExporter \<Rightarrow> Surroundings \<Rightarrow> SerializableSpan list list \<Rightarrow> string list" where
  "sendErrors this world bs =
     concat (map (\<lambda>i. case sendSpans this (fetchResult world i (bs ! i)) of
                          None \<Rightarrow> []
                        | Some message \<Rightarrow>
                            [''batch '' @ string_of_nat (i + 1) @ ''/'' @ string_of_nat (length bs)
                               @ '': '' @ message])
                 [0..<length bs])"

text \<open>
  The callback of the auto-flush timer: \<open>fo_result\<close> is what leaves the callback
  (a rejection of \<open>flush\<close> is caught by \<open>.catch\<close> and logged).
\<close>

definition autoFlushTick ::
  "string option \<Rightarrow> (SerializableSpan \<Rightarrow> nat) \<Rightarrow> Surroundings \<Rightarrow> AIQASpanExporter \<Rightarrow> FlushOutcome" where
  "autoFlushTick env jsonSize world this =
     (if \<not> shutdownRequested this
      then
        let r = flush env jsonSize world this
        in (case fo_result r of
              Inl message \<Rightarrow>
                r\<lparr>fo_console := fo_console r @ [(ConsoleError, ''AIQA: Error in auto-flush: '' @ message)],
                  fo_result := Inr ()\<rparr>
            | Inr u \<Rightarrow> r)
      else \<lparr>fo_this = this, fo_console = [], fo_sendCalls = [], fo_delivered = [], fo_result = Inr ()\<rparr>)"

definition shutdown ::
  "string option \<Rightarrow> (SerializableSpan \<Rightarrow> nat) \<Rightarrow> Surroundings \<Rightarrow> AIQASpanExporter \<Rightarrow> FlushOutcome" where
  "shutdown env jsonSize world this =
     (let this1 = this\<lparr>shutdownRequested := True\<rparr>;
          this2 = (if flushTimer this1 then this1\<lparr>flushTimer := False\<rparr> else this1)
      in flush env jsonSize world this2)"

text \<open>
  \<open>extends t t'\<close>: \<open>t'\<close> is \<open>t\<close> with spans pushed at the end of the buffer and another
  tracked set; the configuration is the same.
\<close>

definition extends :: "AIQASpanExporter \<Rightarrow> AIQASpanExporter \<Rightarrow> bool" where
  "extends t t' = (\<exists>ys K. t' = t\<lparr>buffer := buffer t @ ys, bufferSpanKeys := K\<rparr>)"

text \<open>
  \<open>keepsClear K t\<close>: the keys \<open>K\<close> are tracked by \<open>t\<close> and no buffered span has one of them.
\<close>

definition keepsClear :: "string set \<Rightarrow> AIQASpanExporter \<Rightarrow> bool" where
  "keepsClear K t = (K \<subseteq> bufferSpanKeys t \<and> (\<forall>y \<in> set (buffer t). spanKey y \<notin> K))"

section \<open>The flush lock\<close>

text \<open>
  \<open>flush\<close> begins with \<open>await this.flushLock\<close>. When the awaited promise is resolved the
  call resumes: it stores a new promise in \<open>this.flushLock\<close>, drains the buffer, returns at
  once if nothing was drained and otherwise (the server URL being set) awaits its sends;
  \<open>finally\<close> resolves the new promise. Promises are numbered in the order of their creation, promise 0 being the initial
  \<open>Promise.resolve()\<close>. A call of \<open>flush\<close> is awaiting the lock it read, or sending what
  it drained, or has returned. The events are: a call of \<open>flush\<close>, the resumption of a call
  whose awaited promise is resolved, the settling of a call's sends, and an \<open>export\<close> of a
  span.
\<close>

datatype 'a flushCall = AwaitingLock nat | Sending nat "'a list" | Returned

record 'a LockState =
  ls_flushLock :: nat
  ls_resolved :: "nat set"
  ls_created :: nat
  ls_buffer :: "'a list"
  ls_calls :: "'a flushCall list"

datatype 'a lockEvent = CallFlush | Resume nat | Settle nat | Export 'a

fun lockStep :: "'a LockState \<Rightarrow> 'a lockEvent \<Rightarrow> 'a LockState option" where
  "lockStep s CallFlush = Some (s\<lparr>ls_calls := ls_calls s @ [AwaitingLock (ls_flushLock s)]\<rparr>)"
| "lockStep s (Resume i) =
     (if i < length (ls_calls s) then
        (case ls_calls s ! i of
           AwaitingLock p \<Rightarrow>
             if p \<in> ls_resolved s then
               let q = ls_created s;
                   spansToFlush = ls_buffer s;
                   s1 = s\<lparr>ls_flushLock := q, ls_created := q + 1, ls_buffer := []\<rparr>
               in if length spansToFlush = 0
                  then Some (s1\<lparr>ls_resolved := insert q (ls_resolved s1),
                                 ls_calls := (ls_calls s1)[i := Returned]\<rparr>)
                  else Some (s1\<lparr>ls_calls := (ls_calls s1)[i := Sending q spansToFlush]\<rparr>)
             else None
         | Sending q spans \<Rightarrow> None
         | Returned \<Rightarrow> None)
      else None)"
| "lockStep s (Settle i) =
     (if i < length (ls_calls s) then
        (case ls_calls s ! i of
           Sending q spans \<Rightarrow>
             Some (s\<lparr>ls_resolved := insert q (ls_resolved s), ls_calls := (ls_calls s)[i := Returned]\<rparr>)
         | AwaitingLock p \<Rightarrow> None
         | Returned \<Rightarrow> None)
      else None)"
| "lockStep s (Export x) = Some (s\<lparr>ls_buffer := ls_buffer s @ [x]\<rparr>)"

fun lockRun :: "'a LockState \<Rightarrow> 'a lockEvent list \<Rightarrow> 'a LockState option" where
  "lockRun s [] = Some s"
| "lockRun s (e # es) = (case lockStep s e of None \<Rightarrow> None | Some s' \<Rightarrow> lockRun s' es)"

definition initialLock :: "'a LockState" where
  "initialLock = \<lparr>ls_flushLock = 0, ls_resolved = {0}, ls_created = 1, ls_buffer = [], ls_calls = []\<rparr>"

section \<open>Example data\<close>

text \<open>
  Spans for the examples: span number \<open>n\<close> of one trace, with a 16-digit hexadecimal
  span id. In the examples a span's JSON text is taken to be one megabyte for every
  character of its name.
\<close>

definition hexDigit :: "nat \<Rightarrow> char" where
  "hexDigit d = (if d mod 16 < 10 then char_of (48 + d mod 16) else char_of (87 + d mod 16))"

definition exampleSpanId :: "nat \<Rightarrow> string" where
  "exampleSpanId n =
     ''000000000000''
       @ [hexDigit (n div 16 div 16 div 16), hexDigit (n div 16 div 16), hexDigit (n div 16), hexDigit n]"

definition exampleTraceId :: string where
  "exampleTraceId = ''0af7651916cd43dd8448eb211c80319c''"

definition exampleSpan :: "nat \<Rightarrow> string \<Rightarrow> ReadableSpan" where
  "exampleSpan n nm =
     \<lparr> rs_name = nm, rs_kind = 0, rs_parentSpanId = None,
       rs_startTime = (1700000000, 0), rs_endTime = (1700000001, 0),
       rs_statusCode = 0, rs_statusMessage = None,
       rs_attributes = JObj [(''password'', JStr ''secret123''), (''token'', JStr ''eyJabc.def.ghi''),
                             (''count'', JNum (Finite 3))],
       rs_links = [], rs_events = [],
       rs_resourceAttributes = JObj [(''service.name'', JStr ''demo'')],
       rs_traceId = exampleTraceId, rs_spanId = exampleSpanId n, rs_traceFlags = 1,
       rs_duration = (1, 0), rs_ended = True,
       rs_instrumentationLibrary = (''aiqa'', None) \<rparr>"

definition exampleSize :: "SerializableSpan \<Rightarrow> nat" where
  "exampleSize sp = 1000000 * length (name sp)"

definition buffered :: "nat \<Rightarrow> string \<Rightarrow> SerializableSpan" where
  "buffered n nm = serializeSpan None (exampleSpan n nm)"

text \<open>
  An exporter as the constructor makes it, and one whose buffer holds 10000 spans (the
  default \<open>maxBufferSpans\<close>) with their keys tracked.
\<close>

definition exampleExporter :: AIQASpanExporter where
  "exampleExporter = newExporter ''http://localhost:3000/'' ''secret'' 5"

definition fullExporter :: AIQASpanExporter where
  "fullExporter =
     exampleExporter
       \<lparr>buffer := map (\<lambda>n. buffered n ''work'') [0..<10000],
        bufferSpanKeys := set (map (\<lambda>n. spanKey (buffered n ''work'')) [0..<10000])\<rparr>"

text \<open>
  An exporter that buffers two spans of three megabytes each, which makes two batches, and
  surroundings in which the first send is refused and the others succeed: quiet ones, and
  busy ones where \<open>export\<close> is called with a new span while the first send is awaited.
\<close>

definition spanA :: SerializableSpan where
  "spanA = buffered 1 ''abc''"

definition spanB :: SerializableSpan where
  "spanB = buffered 2 ''def''"

definition spanC :: SerializableSpan where
  "spanC = buffered 3 ''new''"

definition twoSpanExporter :: AIQASpanExporter where
  "twoSpanExporter =
     exampleExporter \<lparr>buffer := [spanA, spanB], bufferSpanKeys := {spanKey spanA, spanKey spanB}\<rparr>"

definition firstSendFails :: Surroundings where
  "firstSendFails =
     \<lparr>fetchResult = (\<lambda>i body. if i = 0 then FetchRejected ''connect ECONNREFUSED''
                               else FetchResponse 200 ''OK'' (Some ''{}'')),
      exportsDuring = (\<lambda>i. [])\<rparr>"

definition firstSendFailsBusy :: Surroundings where
  "firstSendFailsBusy =
     \<lparr>fetchResult = (\<lambda>i body. if i = 0 then FetchRejected ''connect ECONNREFUSED''
                               else FetchResponse 200 ''OK'' (Some ''{}'')),
      exportsDuring = (\<lambda>i. if i = 0 then [[exampleSpan 3 ''new'']] else [])\<rparr>"

text \<open>
  Three buffered spans, three batches, and surroundings in which only the second send is
  refused.
\<close>

definition threeSpanExporter :: AIQASpanExporter where
  "threeSpanExporter =
     exampleExporter
       \<lparr>buffer := [spanA, spanB, spanC],
        bufferSpanKeys := {spanKey spanA, spanKey spanB, spanKey spanC}\<rparr>"

definition secondSendFails :: Surroundings where
  "secondSendFails =
     \<lparr>fetchResult = (\<lambda>i body. if i = 1 then FetchResponse 503 ''Service Unavailable'' None
                               else FetchResponse 200 ''OK'' (Some ''{}'')),
      exportsDuring = (\<lambda>i. [])\<rparr>"

text \<open>Four buffered spans, four batches, and surroundings in which every send is refused.\<close>

definition spanD :: SerializableSpan where
  "spanD = buffered 4 ''old''"

definition fourSpanExporter :: AIQASpanExporter where
  "fourSpanExporter =
     exampleExporter
       \<lparr>buffer := [spanA, spanB, spanC, spanD],
        bufferSpanKeys := {spanKey spanA, spanKey spanB, spanKey spanC, spanKey spanD}\<rparr>"

definition allSendsFail :: Surroundings where
  "allSendsFail =
     \<lparr>fetchResult = (\<lambda>i body. FetchRejected ''connect ECONNREFUSED''),
      exportsDuring = (\<lambda>i. [])\<rparr>"

section \<open>Properties of the data filters\<close>

lemma applyDataFilters_cases:
  "applyDataFilters env k v = v \<or> applyDataFilters env k v = mask"
  by (simp add: applyDataFilters_def Let_def)

lemma isJWTToken_mask: "\<not> isJWTToken mask"
  by (simp add: mask_def)

lemma isAPIKey_mask: "\<not> isAPIKey mask"
  by (simp add: mask_def trim_def isWhiteSpace_def apiKeyPrefixes_def)

lemma applyDataFilters_mask: "applyDataFilters env k mask = mask"
  by (simp add: applyDataFilters_def Let_def)

lemma no_key_pattern_in_empty:
  "\<not> str_includes (toLowerCase []) ''password''"
  "toLowerCase [] \<noteq> ''authorization''"
  "\<not> list_ex (\<lambda>pattern. str_includes (toLowerCase []) pattern) apiKeyKeyPatterns"
  by (simp_all add: toLowerCase_def apiKeyKeyPatterns_def)

lemma applyDataFilters_root:
  "applyDataFilters env k v = v \<Longrightarrow> applyDataFilters env [] v = v"
  using isJWTToken_mask isAPIKey_mask
  by (auto simp: applyDataFilters_def Let_def no_key_pattern_in_empty split: if_splits)

lemma applyDataFilters_arr:
  "applyDataFilters env k (JArr xs) = JArr xs \<Longrightarrow> applyDataFilters env k (JArr ys) = JArr ys"
  by (auto simp: applyDataFilters_def Let_def mask_def split: if_splits)

lemma applyDataFilters_obj:
  "applyDataFilters env k (JObj xs) = JObj xs \<Longrightarrow> applyDataFilters env k (JObj ys) = JObj ys"
  by (auto simp: applyDataFilters_def Let_def mask_def split: if_splits)

lemma filterDataRecursive_mask: "filterDataRecursive env mask = mask"
  using applyDataFilters_mask [of env "[]"] by (simp add: mask_def)

lemma applyDataFilters_after_filter:
  assumes "applyDataFilters env k v = v"
  shows "applyDataFilters env k (filterDataRecursive env v) = filterDataRecursive env v"
proof (cases v)
  case (JArr xs)
  then show ?thesis using assms applyDataFilters_arr by simp
next
  case (JObj es)
  then show ?thesis using assms applyDataFilters_obj by simp
qed (use assms applyDataFilters_root [OF assms] in simp_all)


lemma filter_entry_idem:
  assumes "filterDataRecursive env (filterDataRecursive env v) = filterDataRecursive env v"
  shows "filterDataRecursive env (applyDataFilters env k (filterDataRecursive env (applyDataFilters env k v)))
         = filterDataRecursive env (applyDataFilters env k v)"
proof -
  consider "applyDataFilters env k v = mask" | "applyDataFilters env k v = v"
    using applyDataFilters_cases by blast
  then show ?thesis
  proof cases
    case 1
    then show ?thesis
      by (simp add: filterDataRecursive_mask applyDataFilters_mask)
  next
    case 2
    then show ?thesis
      using applyDataFilters_after_filter [OF 2] assms by simp
  qed
qed

lemma set_setProperty: "set (setProperty ps k v) \<subseteq> insert (k, v) (set ps)"
  by (induction ps) (auto split: if_splits)

lemma keys_setProperty:
  "map fst (setProperty ps k v) = (if k \<in> fst ` set ps then map fst ps else map fst ps @ [k])"
  by (induction ps) (auto split: if_splits simp: image_iff)

lemma setProperty_fresh: "k \<notin> fst ` set ps \<Longrightarrow> setProperty ps k v = ps @ [(k, v)]"
  by (induction ps) auto

lemma distinct_setProperty:
  "distinct (map fst ps) \<Longrightarrow> distinct (map fst (setProperty ps k v))"
  by (simp add: keys_setProperty)

lemma set_fold_setProperty:
  "set (foldl (\<lambda>result (k, v). setProperty result k (h k v)) acc es)
   \<subseteq> set acc \<union> (\<lambda>(k, v). (k, h k v)) ` set es"
proof (induction es arbitrary: acc)
  case Nil
  show ?case by simp
next
  case (Cons e es)
  obtain k v where e: "e = (k, v)" by (cases e)
  show ?case
    using Cons.IH [of "setProperty acc k (h k v)"] set_setProperty [of acc k "h k v"]
    by (auto simp: e)
qed

lemma distinct_fold_setProperty:
  "distinct (map fst acc) \<Longrightarrow>
   distinct (map fst (foldl (\<lambda>result (k, v). setProperty result k (h k v)) acc es))"
proof (induction es arbitrary: acc)
  case Nil
  then show ?case by simp
next
  case (Cons e es)
  obtain k v where e: "e = (k, v)" by (cases e)
  show ?case
    using Cons.IH [of "setProperty acc k (h k v)"] distinct_setProperty [OF Cons.prems]
    by (simp add: e)
qed

lemma fold_setProperty_distinct:
  "distinct (map fst (acc @ es)) \<Longrightarrow> (\<And>k v. (k, v) \<in> set es \<Longrightarrow> h k v = v) \<Longrightarrow>
   foldl (\<lambda>result (k, v). setProperty result k (h k v)) acc es = acc @ es"
proof (induction es arbitrary: acc)
  case Nil
  then show ?case by simp
next
  case (Cons e es)
  obtain k v where e: "e = (k, v)" by (cases e)
  have fresh: "k \<notin> fst ` set acc"
    using Cons.prems(1) by (auto simp: e)
  have hv: "h k v = v"
    using Cons.prems(2) [of k v] by (simp add: e)
  have step: "setProperty acc k (h k v) = acc @ [(k, v)]"
    using setProperty_fresh [OF fresh] hv by simp
  have d: "distinct (map fst ((acc @ [(k, v)]) @ es))"
    using Cons.prems(1) by (simp add: e)
  have "foldl (\<lambda>result (k, v). setProperty result k (h k v)) (acc @ [(k, v)]) es = (acc @ [(k, v)]) @ es"
    using Cons.IH [OF d] Cons.prems(2) by simp
  then show ?case
    by (simp add: e step)
qed

lemma getEnabledFilters_default: "getEnabledFilters None = {''RemovePasswords'', ''RemoveJWT''}"
  by (simp add: getEnabledFilters_def trim_def isWhiteSpace_def)

lemma filterDataRecursive_example:
  "filterDataRecursive None (JObj [(''password'', JStr ''secret123''), (''token'', JStr ''eyJabc.def.ghi''),
                             (''count'', JNum (Finite 3)), (''Authorization'', JStr ''sk-12'')])
   = JObj [(''password'', JStr ''****''), (''token'', JStr ''****''),
                             (''count'', JNum (Finite 3)), (''Authorization'', JStr ''sk-12'')]"
  by (simp add: applyDataFilters_def getEnabledFilters_default toLowerCase_def lowerChar_def mask_def Let_def char_of_eq_iff)

text \<open>
  Claim C7. For every value, however nested, and any setting of the enabled filters,
  filtering twice gives what filtering once gives: a masked value (\<open>****\<close>) is not
  matched into anything else by a second pass, and what the first pass left alone the
  second leaves alone.
\<close>

theorem filterDataRecursive_idempotent:
  "filterDataRecursive env (filterDataRecursive env v) = filterDataRecursive env v"
proof (induction v)
  case JNull
  show ?case by simp
next
  case JUndefined
  show ?case by simp
next
  case (JBool b)
  show ?case
    using applyDataFilters_cases [of env "[]" "JBool b"] filterDataRecursive_mask [of env]
    by auto
next
  case (JNum n)
  show ?case
    using applyDataFilters_cases [of env "[]" "JNum n"] filterDataRecursive_mask [of env]
    by auto
next
  case (JStr s)
  show ?case
    using applyDataFilters_cases [of env "[]" "JStr s"] filterDataRecursive_mask [of env]
    by auto
next
  case (JArr xs)
  then show ?case by simp
next
  case (JObj es)
  let ?h = "\<lambda>k v. filterDataRecursive env (applyDataFilters env k v)"
  let ?es' = "foldl (\<lambda>result (k, v). setProperty result k (?h k v)) [] es"
  have sub: "set ?es' \<subseteq> (\<lambda>(k, v). (k, ?h k v)) ` set es"
    using set_fold_setProperty [of ?h "[]" es] by simp
  have fixed: "?h k w = w" if "(k, w) \<in> set ?es'" for k w
  proof -
    from that sub obtain v where v: "(k, v) \<in> set es" and w: "w = ?h k v"
      by auto
    have "filterDataRecursive env (filterDataRecursive env v) = filterDataRecursive env v"
      using JObj.IH [of "(k, v)" v] v by simp
    then show ?thesis
      unfolding w by (rule filter_entry_idem)
  qed
  have dist: "distinct (map fst ([] @ ?es'))"
    using distinct_fold_setProperty [of "[]" ?h es] by simp
  have "foldl (\<lambda>result (k, v). setProperty result k (?h k v)) [] ?es' = [] @ ?es'"
    using dist fixed by (rule fold_setProperty_distinct)
  then show ?case
    by (simp add: Let_def)
qed

section \<open>Properties of the batcher\<close>

lemma splitIntoBatches_step_concat:
  "concat (batches (splitIntoBatches_step jsonSize maxBytes l sp))
     @ currentBatch (splitIntoBatches_step jsonSize maxBytes l sp)
   = concat (batches l) @ currentBatch l @ [sp]"
  by (simp add: splitIntoBatches_step_def Let_def)

lemma splitIntoBatches_step_nonempty:
  "[] \<notin> set (batches l) \<Longrightarrow> [] \<notin> set (batches (splitIntoBatches_step jsonSize maxBytes l sp))"
  by (auto simp: splitIntoBatches_step_def Let_def)

lemma splitIntoBatches_fold_concat:
  "concat (batches (foldl (splitIntoBatches_step jsonSize maxBytes) l spans))
     @ currentBatch (foldl (splitIntoBatches_step jsonSize maxBytes) l spans)
   = concat (batches l) @ currentBatch l @ spans"
proof (induction spans arbitrary: l)
  case Nil
  show ?case by simp
next
  case (Cons sp spans)
  have "concat (batches (foldl (splitIntoBatches_step jsonSize maxBytes) l (sp # spans)))
          @ currentBatch (foldl (splitIntoBatches_step jsonSize maxBytes) l (sp # spans))
        = (concat (batches (splitIntoBatches_step jsonSize maxBytes l sp))
          @ currentBatch (splitIntoBatches_step jsonSize maxBytes l sp)) @ spans"
    using Cons.IH [of "splitIntoBatches_step jsonSize maxBytes l sp"] by simp
  also have "\<dots> = concat (batches l) @ currentBatch l @ sp # spans"
    unfolding splitIntoBatches_step_concat by simp
  finally show ?case .
qed

lemma splitIntoBatches_fold_nonempty:
  "[] \<notin> set (batches l) \<Longrightarrow>
   [] \<notin> set (batches (foldl (splitIntoBatches_step jsonSize maxBytes) l spans))"
  by (induction spans arbitrary: l) (simp_all add: splitIntoBatches_step_nonempty)

lemma splitIntoBatches_batches:
  "fst (splitIntoBatches jsonSize maxBytes spans) =
     (let l = foldl (splitIntoBatches_step jsonSize maxBytes)
                \<lparr>batches = [], currentBatch = [], currentBatchSize = 0, warnings = []\<rparr> spans
      in if currentBatch l = [] then batches l else batches l @ [currentBatch l])"
  by (cases spans) (simp_all add: splitIntoBatches_def Let_def)

lemma concat_splitIntoBatches:
  "concat (fst (splitIntoBatches jsonSize maxBytes spans)) = spans"
  using splitIntoBatches_fold_concat [of jsonSize maxBytes
          "\<lparr>batches = [], currentBatch = [], currentBatchSize = 0, warnings = []\<rparr>" spans]
  by (auto simp: splitIntoBatches_batches Let_def)

lemma splitIntoBatches_no_empty_batch:
  "[] \<notin> set (fst (splitIntoBatches jsonSize maxBytes spans))"
  using splitIntoBatches_fold_nonempty [of
          "\<lparr>batches = [], currentBatch = [], currentBatchSize = 0, warnings = []\<rparr>" jsonSize maxBytes spans]
  by (simp add: splitIntoBatches_batches Let_def)

text \<open>
  Claim C5. For every list of buffered spans and every byte budget, the batches returned
  by \<open>splitIntoBatches\<close>, concatenated, are the input list: the same spans in the same
  order, none lost or duplicated, within and across batches. No batch is empty, and an
  empty input gives no batch at all.
\<close>

theorem splitIntoBatches_preserves_order:
  "concat (fst (splitIntoBatches jsonSize maxBytes spans)) = spans
   \<and> [] \<notin> set (fst (splitIntoBatches jsonSize maxBytes spans))
   \<and> fst (splitIntoBatches jsonSize maxBytes []) = []"
  by (simp add: concat_splitIntoBatches splitIntoBatches_no_empty_batch)
    (simp add: splitIntoBatches_def)

lemma splitIntoBatches_step_bound:
  assumes "\<forall>b \<in> set (batches l). sum_list (map jsonSize b) \<le> maxBytes
             \<or> (\<exists>sp. b = [sp] \<and> jsonSize sp > maxBytes
                    \<and> oversizedWarning sp (jsonSize sp) maxBytes \<in> set (warnings l))"
    and "currentBatchSize l = sum_list (map jsonSize (currentBatch l))"
    and "currentBatchSize l \<le> maxBytes"
  shows "(\<forall>b \<in> set (batches (splitIntoBatches_step jsonSize maxBytes l x)).
            sum_list (map jsonSize b) \<le> maxBytes
             \<or> (\<exists>sp. b = [sp] \<and> jsonSize sp > maxBytes
                    \<and> oversizedWarning sp (jsonSize sp) maxBytes
                         \<in> set (warnings (splitIntoBatches_step jsonSize maxBytes l x))))
       \<and> currentBatchSize (splitIntoBatches_step jsonSize maxBytes l x)
           = sum_list (map jsonSize (currentBatch (splitIntoBatches_step jsonSize maxBytes l x)))
       \<and> currentBatchSize (splitIntoBatches_step jsonSize maxBytes l x) \<le> maxBytes"
proof (cases "jsonSize x > maxBytes")
  case True
  then show ?thesis
    using assms by (auto simp: splitIntoBatches_step_def Let_def)
next
  case False
  then show ?thesis
    using assms by (auto simp: splitIntoBatches_step_def Let_def)
qed

lemma splitIntoBatches_fold_bound:
  assumes "\<forall>b \<in> set (batches l). sum_list (map jsonSize b) \<le> maxBytes
             \<or> (\<exists>sp. b = [sp] \<and> jsonSize sp > maxBytes
                    \<and> oversizedWarning sp (jsonSize sp) maxBytes \<in> set (warnings l))"
    and "currentBatchSize l = sum_list (map jsonSize (currentBatch l))"
    and "currentBatchSize l \<le> maxBytes"
  shows "(\<forall>b \<in> set (batches (foldl (splitIntoBatches_step jsonSize maxBytes) l spans)).
            sum_list (map jsonSize b) \<le> maxBytes
             \<or> (\<exists>sp. b = [sp] \<and> jsonSize sp > maxBytes
                    \<and> oversizedWarning sp (jsonSize sp) maxBytes
                         \<in> set (warnings (foldl (splitIntoBatches_step jsonSize maxBytes) l spans))))
       \<and> sum_list (map jsonSize (currentBatch (foldl (splitIntoBatches_step jsonSize maxBytes) l spans)))
           \<le> maxBytes"
  using assms
proof (induction spans arbitrary: l)
  case Nil
  then show ?case by simp
next
  case (Cons x spans)
  have s: "(\<forall>b \<in> set (batches (splitIntoBatches_step jsonSize maxBytes l x)).
            sum_list (map jsonSize b) \<le> maxBytes
             \<or> (\<exists>sp. b = [sp] \<and> jsonSize sp > maxBytes
                    \<and> oversizedWarning sp (jsonSize sp) maxBytes
                         \<in> set (warnings (splitIntoBatches_step jsonSize maxBytes l x))))
       \<and> currentBatchSize (splitIntoBatches_step jsonSize maxBytes l x)
           = sum_list (map jsonSize (currentBatch (splitIntoBatches_step jsonSize maxBytes l x)))
       \<and> currentBatchSize (splitIntoBatches_step jsonSize maxBytes l x) \<le> maxBytes"
    by (rule splitIntoBatches_step_bound [OF Cons.prems])
  show ?case
    using Cons.IH [of "splitIntoBatches_step jsonSize maxBytes l x"] s by simp
qed

lemma splitIntoBatches_step_oversized:
  "jsonSize x > maxBytes \<Longrightarrow> [x] \<in> set (batches (splitIntoBatches_step jsonSize maxBytes l x))"
  by (simp add: splitIntoBatches_step_def Let_def)

lemma splitIntoBatches_step_keeps:
  "b \<in> set (batches l) \<Longrightarrow> b \<in> set (batches (splitIntoBatches_step jsonSize maxBytes l x))"
  by (simp add: splitIntoBatches_step_def Let_def)

lemma splitIntoBatches_fold_keeps:
  "b \<in> set (batches l) \<Longrightarrow> b \<in> set (batches (foldl (splitIntoBatches_step jsonSize maxBytes) l spans))"
  by (induction spans arbitrary: l) (simp_all add: splitIntoBatches_step_keeps)

lemma splitIntoBatches_fold_oversized:
  "sp \<in> set spans \<Longrightarrow> jsonSize sp > maxBytes \<Longrightarrow>
   [sp] \<in> set (batches (foldl (splitIntoBatches_step jsonSize maxBytes) l spans))"
proof (induction spans arbitrary: l)
  case Nil
  then show ?case by simp
next
  case (Cons x spans)
  show ?case
  proof (cases "sp = x")
    case True
    then show ?thesis
      using Cons.prems(2) splitIntoBatches_fold_keeps splitIntoBatches_step_oversized by simp
  next
    case False
    then show ?thesis
      using Cons by simp
  qed
qed

lemma splitIntoBatches_warnings:
  "snd (splitIntoBatches jsonSize maxBytes spans) =
     warnings (foldl (splitIntoBatches_step jsonSize maxBytes)
                \<lparr>batches = [], currentBatch = [], currentBatchSize = 0, warnings = []\<rparr> spans)"
  by (cases spans) (simp_all add: splitIntoBatches_def Let_def)

lemma exampleSize_buffered: "exampleSize (buffered n nm) = 1000000 * length nm"
  by (simp add: exampleSize_def buffered_def serializeSpan_def exampleSpan_def)

lemma splitIntoBatches_example:
  "fst (splitIntoBatches exampleSize (5 * 1024 * 1024)
        [buffered 1 ''ab'', buffered 2 ''cd'', buffered 3 ''abcdef'', buffered 4 ''ef''])
   = [[buffered 1 ''ab'', buffered 2 ''cd''], [buffered 3 ''abcdef''], [buffered 4 ''ef'']]"
  by (simp add: splitIntoBatches_def splitIntoBatches_step_def exampleSize_def buffered_def
      serializeSpan_def exampleSpan_def Let_def)


text \<open>
  Claim C6. For every list of spans, every batch \<open>splitIntoBatches\<close> returns has a total
  serialized size (the sum of its spans' sizes) of at most \<open>maxBatchSizeBytes\<close>, or it is
  a batch of exactly one span whose own size exceeds the budget, and then the console has the
  warning for that span. Every span larger than the budget is kept, as a batch of its own.
\<close>

theorem splitIntoBatches_size_bound:
  "(\<forall>b \<in> set (fst (splitIntoBatches jsonSize maxBytes spans)).
      sum_list (map jsonSize b) \<le> maxBytes
      \<or> (\<exists>sp. b = [sp] \<and> jsonSize sp > maxBytes
             \<and> oversizedWarning sp (jsonSize sp) maxBytes \<in> set (snd (splitIntoBatches jsonSize maxBytes spans))))
   \<and> (\<forall>sp \<in> set spans. jsonSize sp > maxBytes \<longrightarrow> [sp] \<in> set (fst (splitIntoBatches jsonSize maxBytes spans)))"
proof -
  let ?l0 = "\<lparr>batches = [], currentBatch = [], currentBatchSize = 0, warnings = []\<rparr>"
  let ?l = "foldl (splitIntoBatches_step jsonSize maxBytes) ?l0 spans"
  have inv: "(\<forall>b \<in> set (batches ?l).
            sum_list (map jsonSize b) \<le> maxBytes
             \<or> (\<exists>sp. b = [sp] \<and> jsonSize sp > maxBytes
                    \<and> oversizedWarning sp (jsonSize sp) maxBytes \<in> set (warnings ?l)))
       \<and> sum_list (map jsonSize (currentBatch ?l)) \<le> maxBytes"
    by (rule splitIntoBatches_fold_bound) simp_all
  have a: "\<forall>b \<in> set (fst (splitIntoBatches jsonSize maxBytes spans)).
      sum_list (map jsonSize b) \<le> maxBytes
      \<or> (\<exists>sp. b = [sp] \<and> jsonSize sp > maxBytes
             \<and> oversizedWarning sp (jsonSize sp) maxBytes \<in> set (snd (splitIntoBatches jsonSize maxBytes spans)))"
    unfolding splitIntoBatches_warnings splitIntoBatches_batches Let_def
    using inv by auto
  have b: "\<forall>sp \<in> set spans. jsonSize sp > maxBytes \<longrightarrow> [sp] \<in> set (fst (splitIntoBatches jsonSize maxBytes spans))"
  proof (intro ballI impI)
    fix sp
    assume "sp \<in> set spans" and "jsonSize sp > maxBytes"
    then have "[sp] \<in> set (batches ?l)"
      by (rule splitIntoBatches_fold_oversized)
    then show "[sp] \<in> set (fst (splitIntoBatches jsonSize maxBytes spans))"
      by (simp add: splitIntoBatches_batches Let_def)
  qed
  show ?thesis using a b by blast
qed

theorem splitIntoBatches_size_bound_witness:
  "[buffered 3 ''abcdef'']
     \<in> set (fst (splitIntoBatches exampleSize (5 * 1024 * 1024)
                 [buffered 1 ''ab'', buffered 2 ''cd'', buffered 3 ''abcdef'', buffered 4 ''ef'']))
   \<and> oversizedWarning (buffered 3 ''abcdef'') 6000000 (5 * 1024 * 1024)
     \<in> set (snd (splitIntoBatches exampleSize (5 * 1024 * 1024)
                 [buffered 1 ''ab'', buffered 2 ''cd'', buffered 3 ''abcdef'', buffered 4 ''ef'']))"
proof -
  let ?spans = "[buffered 1 ''ab'', buffered 2 ''cd'', buffered 3 ''abcdef'', buffered 4 ''ef'']"
  let ?big = "buffered 3 ''abcdef''"
  note t = splitIntoBatches_size_bound [of exampleSize "5 * 1024 * 1024" ?spans]
  have size: "exampleSize ?big = 6000000"
    by (simp add: exampleSize_buffered)
  have "?big \<in> set ?spans" by simp
  moreover have "exampleSize ?big > 5 * 1024 * 1024"
    by (simp add: size)
  ultimately have single: "[?big] \<in> set (fst (splitIntoBatches exampleSize (5 * 1024 * 1024) ?spans))"
    using t by blast
  then have "sum_list (map exampleSize [?big]) \<le> 5 * 1024 * 1024
      \<or> (\<exists>sp. [?big] = [sp] \<and> exampleSize sp > 5 * 1024 * 1024
             \<and> oversizedWarning sp (exampleSize sp) (5 * 1024 * 1024)
                  \<in> set (snd (splitIntoBatches exampleSize (5 * 1024 * 1024) ?spans)))"
    using t by blast
  then have "oversizedWarning ?big 6000000 (5 * 1024 * 1024)
                  \<in> set (snd (splitIntoBatches exampleSize (5 * 1024 * 1024) ?spans))"
    by (auto simp: size)
  with single show ?thesis by blast
qed

section \<open>Properties of addToBuffer and export\<close>

lemma addToBuffer_step_buffer:
  "buffer (exporter (addToBuffer_step env l sp)) = buffer (exporter l)
   \<and> maxBufferSpans (exporter (addToBuffer_step env l sp)) = maxBufferSpans (exporter l)"
  by (simp add: addToBuffer_step_def Let_def)

lemma addToBuffer_fold_full:
  "maxBufferSpans (exporter l) \<le> length (buffer (exporter l)) \<Longrightarrow>
   foldl (addToBuffer_step env) l spans = l\<lparr>droppedCount := droppedCount l + length spans\<rparr>"
proof (induction spans arbitrary: l)
  case Nil
  show ?case by simp
next
  case (Cons sp spans)
  have s: "addToBuffer_step env l sp = l\<lparr>droppedCount := droppedCount l + 1\<rparr>"
    using Cons.prems by (simp add: addToBuffer_step_def)
  show ?case
    using Cons.IH [of "l\<lparr>droppedCount := droppedCount l + 1\<rparr>"] Cons.prems
    by (simp add: s)
qed

lemma addToBuffer_fold_fresh:
  "\<lbrakk> length (buffer (exporter l)) < maxBufferSpans (exporter l);
     distinct (map (\<lambda>sp. spanKey (serializeSpan env sp)) spans);
     \<forall>sp \<in> set spans. spanKey (serializeSpan env sp) \<notin> bufferSpanKeys (exporter l) \<rbrakk> \<Longrightarrow>
   foldl (addToBuffer_step env) l spans =
     l\<lparr>serializedSpans := serializedSpans l @ map (serializeSpan env) spans,
       exporter := (exporter l)\<lparr>bufferSpanKeys :=
                      bufferSpanKeys (exporter l) \<union> set (map (\<lambda>sp. spanKey (serializeSpan env sp)) spans)\<rparr>\<rparr>"
proof (induction spans arbitrary: l)
  case Nil
  show ?case by simp
next
  case (Cons sp spans)
  let ?l1 = "l\<lparr>serializedSpans := serializedSpans l @ [serializeSpan env sp],
                 exporter := (exporter l)\<lparr>bufferSpanKeys := insert (spanKey (serializeSpan env sp)) (bufferSpanKeys (exporter l))\<rparr>\<rparr>"
  have s: "addToBuffer_step env l sp = ?l1"
    using Cons.prems by (simp add: addToBuffer_step_def Let_def)
  have "foldl (addToBuffer_step env) ?l1 spans =
     ?l1\<lparr>serializedSpans := serializedSpans ?l1 @ map (serializeSpan env) spans,
       exporter := (exporter ?l1)\<lparr>bufferSpanKeys :=
                      bufferSpanKeys (exporter ?l1) \<union> set (map (\<lambda>sp. spanKey (serializeSpan env sp)) spans)\<rparr>\<rparr>"
    using Cons.prems by (intro Cons.IH) (auto simp: image_iff)
  then show ?case
    by (simp add: s)
qed


lemma hexDigit_inj: "hexDigit a = hexDigit b \<Longrightarrow> a mod 16 = b mod 16"
proof -
  assume h: "hexDigit a = hexDigit b"
  define x where "x = a mod 16"
  define y where "y = b mod 16"
  have a: "x < 16" and b: "y < 16" by (simp_all add: x_def y_def)
  have "(if x < 10 then 48 + x else 87 + x) mod 256 = (if y < 10 then 48 + y else 87 + y) mod 256"
    using h unfolding hexDigit_def x_def y_def by (simp split: if_splits)
  then have "x = y"
    using a b by (simp split: if_splits)
  then show ?thesis by (simp add: x_def y_def)
qed

lemma same_digits: "(x::nat) mod 16 = y mod 16 \<Longrightarrow> x div 16 = y div 16 \<Longrightarrow> x = y"
  by (metis div_mult_mod_eq)


lemma exampleSpanId_inj:
  assumes "exampleSpanId n = exampleSpanId m" and "n < 65536" and "m < 65536"
  shows "n = m"
proof -
  have "hexDigit (n div 16 div 16 div 16) = hexDigit (m div 16 div 16 div 16)"
    using assms(1) by (simp add: exampleSpanId_def)
  then have d3: "(n div 16 div 16 div 16) mod 16 = (m div 16 div 16 div 16) mod 16"
    by (rule hexDigit_inj)
  have "hexDigit (n div 16 div 16) = hexDigit (m div 16 div 16)"
    using assms(1) by (simp add: exampleSpanId_def)
  then have d2: "(n div 16 div 16) mod 16 = (m div 16 div 16) mod 16"
    by (rule hexDigit_inj)
  have "hexDigit (n div 16) = hexDigit (m div 16)"
    using assms(1) by (simp add: exampleSpanId_def)
  then have d1: "(n div 16) mod 16 = (m div 16) mod 16"
    by (rule hexDigit_inj)
  have "hexDigit n = hexDigit m"
    using assms(1) by (simp add: exampleSpanId_def)
  then have d0: "n mod 16 = m mod 16"
    by (rule hexDigit_inj)
  have "n div 16 div 16 div 16 div 16 = 0" "m div 16 div 16 div 16 div 16 = 0"
    using assms(2,3) by (simp_all add: div_mult2_eq [symmetric])
  then have "n div 16 div 16 div 16 div 16 = m div 16 div 16 div 16 div 16"
    by simp
  with d3 have "n div 16 div 16 div 16 = m div 16 div 16 div 16"
    by (rule same_digits)
  with d2 have "n div 16 div 16 = m div 16 div 16"
    by (rule same_digits)
  with d1 have "n div 16 = m div 16"
    by (rule same_digits)
  with d0 show ?thesis
    by (rule same_digits)
qed

lemma spanKey_exampleSpan:
  "spanKey (serializeSpan env (exampleSpan n nm)) = exampleTraceId @ '':'' @ exampleSpanId n"
  by (simp add: spanKey_def serializeSpan_def exampleSpan_def)

lemma exampleSpan_keys_distinct:
  assumes "k \<le> 65536"
  shows "distinct (map (\<lambda>sp. spanKey (serializeSpan env sp)) (map (\<lambda>n. exampleSpan n nm) [0..<k]))"
proof -
  have "inj_on (\<lambda>n. exampleTraceId @ '':'' @ exampleSpanId n) {0..<k}"
  proof (rule inj_onI)
    fix n m
    assume "n \<in> {0..<k}" "m \<in> {0..<k}"
      and "exampleTraceId @ '':'' @ exampleSpanId n = exampleTraceId @ '':'' @ exampleSpanId m"
    then have "exampleSpanId n = exampleSpanId m" "n < 65536" "m < 65536"
      using assms by simp_all
    then show "n = m" by (rule exampleSpanId_inj)
  qed
  then have "distinct (map (\<lambda>n. exampleTraceId @ '':'' @ exampleSpanId n) [0..<k])"
    by (simp add: distinct_map)
  then show ?thesis
    by (simp add: comp_def spanKey_exampleSpan)
qed


lemma addToBuffer_locals:
  "fst (addToBuffer env this spans) =
     (let l = foldl (addToBuffer_step env)
                \<lparr>exporter = this, duplicatesCount = 0, droppedCount = 0, serializedSpans = []\<rparr> spans
      in l\<lparr>exporter := (exporter l)\<lparr>buffer := buffer (exporter l) @ serializedSpans l\<rparr>\<rparr>)"
  by (simp add: addToBuffer_def Let_def)

lemma exampleExporter_fields:
  "maxBufferSpans exampleExporter = 10000" "buffer exampleExporter = []"
  "bufferSpanKeys exampleExporter = {}" "serverUrl exampleExporter = ''http://localhost:3000''"
  "maxBatchSizeBytes exampleExporter = 5 * 1024 * 1024" "shutdownRequested exampleExporter = False"
  by (simp_all add: exampleExporter_def newExporter_def)

text \<open>
  Claim C1 says that after every append the buffer holds at most \<open>maxBufferSpans\<close> spans
  and that every record in excess of capacity is counted as dropped and not stored. The code
  compares \<open>this.buffer.length\<close>, which does not grow inside the loop, so one call can
  overshoot: the exporter as constructed (capacity 10000, empty buffer), given 10001 spans
  with distinct ids in one call, buffers all 10001 and counts no drop.
\<close>

theorem addToBuffer_exceeds_capacity:
  "maxBufferSpans exampleExporter = 10000
   \<and> length (buffer (exporter (fst (addToBuffer None exampleExporter
                                      (map (\<lambda>n. exampleSpan n ''work'') [0..<10001]))))) = 10001
   \<and> droppedCount (fst (addToBuffer None exampleExporter
                          (map (\<lambda>n. exampleSpan n ''work'') [0..<10001]))) = 0"
proof -
  let ?spans = "map (\<lambda>n. exampleSpan n ''work'') [0..<10001]"
  let ?l0 = "\<lparr>exporter = exampleExporter, duplicatesCount = 0, droppedCount = 0, serializedSpans = []\<rparr>"
  have d: "distinct (map (\<lambda>sp. spanKey (serializeSpan None sp)) ?spans)"
    by (rule exampleSpan_keys_distinct) simp
  have "foldl (addToBuffer_step None) ?l0 ?spans =
     ?l0\<lparr>serializedSpans := serializedSpans ?l0 @ map (serializeSpan None) ?spans,
       exporter := (exporter ?l0)\<lparr>bufferSpanKeys :=
                      bufferSpanKeys (exporter ?l0) \<union> set (map (\<lambda>sp. spanKey (serializeSpan None sp)) ?spans)\<rparr>\<rparr>"
    using d by (intro addToBuffer_fold_fresh) (simp_all add: exampleExporter_fields)
  then show ?thesis
    by (simp add: addToBuffer_locals exampleExporter_fields)
qed


lemma append_fold_full:
  "maxBufferSpans (ap_this a) \<le> length (buffer (ap_this a)) \<Longrightarrow>
   foldl (append_record env) a spans = a\<lparr>ap_dropped := ap_dropped a + length spans\<rparr>"
proof (induction spans arbitrary: a)
  case Nil
  show ?case by simp
next
  case (Cons sp spans)
  have s: "append_record env a sp = a\<lparr>ap_dropped := ap_dropped a + 1\<rparr>"
    using Cons.prems by (simp add: append_record_def)
  show ?case
    using Cons.IH [of "a\<lparr>ap_dropped := ap_dropped a + 1\<rparr>"] Cons.prems
    by (simp add: s)
qed

lemma append_step_simulation:
  assumes "ap_this a = (exporter l)\<lparr>buffer := buffer (exporter l) @ serializedSpans l\<rparr>"
    and "ap_accepted a = length (serializedSpans l)"
    and "ap_duplicates a = duplicatesCount l"
    and "ap_dropped a = droppedCount l"
    and "length (buffer (exporter l)) + length (serializedSpans l) < maxBufferSpans (exporter l)"
  shows "ap_this (append_record env a sp)
           = (exporter (addToBuffer_step env l sp))
               \<lparr>buffer := buffer (exporter (addToBuffer_step env l sp))
                            @ serializedSpans (addToBuffer_step env l sp)\<rparr>
       \<and> ap_accepted (append_record env a sp) = length (serializedSpans (addToBuffer_step env l sp))
       \<and> ap_duplicates (append_record env a sp) = duplicatesCount (addToBuffer_step env l sp)
       \<and> ap_dropped (append_record env a sp) = droppedCount (addToBuffer_step env l sp)
       \<and> length (serializedSpans (addToBuffer_step env l sp)) \<le> Suc (length (serializedSpans l))"
  using assms by (simp add: append_record_def addToBuffer_step_def Let_def)

lemma append_fold_simulation:
  assumes "ap_this a = (exporter l)\<lparr>buffer := buffer (exporter l) @ serializedSpans l\<rparr>"
    and "ap_accepted a = length (serializedSpans l)"
    and "ap_duplicates a = duplicatesCount l"
    and "ap_dropped a = droppedCount l"
    and "length (buffer (exporter l)) + length (serializedSpans l) + length spans \<le> maxBufferSpans (exporter l)"
  shows "ap_this (foldl (append_record env) a spans)
           = (exporter (foldl (addToBuffer_step env) l spans))
               \<lparr>buffer := buffer (exporter (foldl (addToBuffer_step env) l spans))
                            @ serializedSpans (foldl (addToBuffer_step env) l spans)\<rparr>
       \<and> ap_accepted (foldl (append_record env) a spans)
           = length (serializedSpans (foldl (addToBuffer_step env) l spans))
       \<and> ap_duplicates (foldl (append_record env) a spans)
           = duplicatesCount (foldl (addToBuffer_step env) l spans)
       \<and> ap_dropped (foldl (append_record env) a spans)
           = droppedCount (foldl (addToBuffer_step env) l spans)"
  using assms
proof (induction spans arbitrary: a l)
  case Nil
  then show ?case by simp
next
  case (Cons sp spans)
  have room: "length (buffer (exporter l)) + length (serializedSpans l) < maxBufferSpans (exporter l)"
    using Cons.prems(5) by simp
  note s = append_step_simulation [OF Cons.prems(1-4) room, of env sp]
  have room': "length (buffer (exporter (addToBuffer_step env l sp)))
                 + length (serializedSpans (addToBuffer_step env l sp)) + length spans
               \<le> maxBufferSpans (exporter (addToBuffer_step env l sp))"
    using s Cons.prems(5) by (simp add: addToBuffer_step_buffer)
  show ?case
    using Cons.IH [of "append_record env a sp" "addToBuffer_step env l sp"] s room'
    by simp
qed

text \<open>
  Claim C4, amended. In \<open>addToBuffer\<close> the capacity check comes before the duplicate
  check: a record that finds the buffer at \<open>maxBufferSpans\<close> is counted as dropped,
  whether or not its key is tracked; otherwise a record whose key is tracked is counted as a
  duplicate and skipped without lengthening the buffer; otherwise it is redacted, appended in
  order, its key added to the tracked set, and counted as accepted. That is the rule
  \<open>append_records\<close>, and \<open>addToBuffer\<close> computes the same exporter and the same three
  counts, for every call that finds the buffer full or with room for all of its records.
\<close>

theorem addToBuffer_follows_append_rule:
  assumes "length (buffer this) + length spans \<le> maxBufferSpans this
           \<or> maxBufferSpans this \<le> length (buffer this)"
  shows "exporter (fst (addToBuffer env this spans)) = ap_this (append_records env this spans)
       \<and> length (serializedSpans (fst (addToBuffer env this spans))) = ap_accepted (append_records env this spans)
       \<and> duplicatesCount (fst (addToBuffer env this spans)) = ap_duplicates (append_records env this spans)
       \<and> droppedCount (fst (addToBuffer env this spans)) = ap_dropped (append_records env this spans)"
proof (cases "maxBufferSpans this \<le> length (buffer this)")
  case True
  let ?l0 = "\<lparr>exporter = this, duplicatesCount = 0, droppedCount = 0, serializedSpans = []\<rparr>"
  let ?a0 = "\<lparr>ap_this = this, ap_accepted = 0, ap_duplicates = 0, ap_dropped = 0\<rparr>"
  have "foldl (addToBuffer_step env) ?l0 spans = ?l0\<lparr>droppedCount := droppedCount ?l0 + length spans\<rparr>"
    using True by (intro addToBuffer_fold_full) simp
  moreover have "foldl (append_record env) ?a0 spans = ?a0\<lparr>ap_dropped := ap_dropped ?a0 + length spans\<rparr>"
    using True by (intro append_fold_full) simp
  ultimately show ?thesis
    by (simp add: addToBuffer_locals append_records_def)
next
  case False
  let ?l0 = "\<lparr>exporter = this, duplicatesCount = 0, droppedCount = 0, serializedSpans = []\<rparr>"
  let ?a0 = "\<lparr>ap_this = this, ap_accepted = 0, ap_duplicates = 0, ap_dropped = 0\<rparr>"
  have room: "length (buffer this) + length spans \<le> maxBufferSpans this"
    using assms False by blast
  have "ap_this (foldl (append_record env) ?a0 spans)
           = (exporter (foldl (addToBuffer_step env) ?l0 spans))
               \<lparr>buffer := buffer (exporter (foldl (addToBuffer_step env) ?l0 spans))
                            @ serializedSpans (foldl (addToBuffer_step env) ?l0 spans)\<rparr>
       \<and> ap_accepted (foldl (append_record env) ?a0 spans)
           = length (serializedSpans (foldl (addToBuffer_step env) ?l0 spans))
       \<and> ap_duplicates (foldl (append_record env) ?a0 spans)
           = duplicatesCount (foldl (addToBuffer_step env) ?l0 spans)
       \<and> ap_dropped (foldl (append_record env) ?a0 spans)
           = droppedCount (foldl (addToBuffer_step env) ?l0 spans)"
    using room by (intro append_fold_simulation) simp_all
  then show ?thesis
    by (simp add: addToBuffer_locals append_records_def Let_def)
qed


lemma exampleSpanId_values:
  "exampleSpanId 0 = ''0000000000000000''" "exampleSpanId 1 = ''0000000000000001''"
  "exampleSpanId 2 = ''0000000000000002''" "exampleSpanId 3 = ''0000000000000003''"
  "exampleSpanId 4 = ''0000000000000004''" "exampleSpanId (Suc 0) = ''0000000000000001''"
  by (simp_all add: exampleSpanId_def hexDigit_def char_of_eq_iff)

lemma fullExporter_fields:
  "maxBufferSpans fullExporter = 10000" "length (buffer fullExporter) = 10000"
  by (simp_all add: fullExporter_def exampleExporter_fields)

lemma fullExporter_tracks: "n < 10000 \<Longrightarrow> spanKey (buffered n ''work'') \<in> bufferSpanKeys fullExporter"
  by (simp add: fullExporter_def)

text \<open>
  The amended rule at work: two new spans and a repetition of the first, into the empty
  buffer of a new exporter; and a new span into a full buffer.
\<close>

theorem addToBuffer_follows_append_rule_witness:
  "length (buffer exampleExporter) + length [exampleSpan 1 ''ab'', exampleSpan 2 ''cd'', exampleSpan 1 ''ab'']
     \<le> maxBufferSpans exampleExporter
   \<and> buffer (exporter (fst (addToBuffer None exampleExporter
                 [exampleSpan 1 ''ab'', exampleSpan 2 ''cd'', exampleSpan 1 ''ab''])))
       = [buffered 1 ''ab'', buffered 2 ''cd'']
   \<and> length (serializedSpans (fst (addToBuffer None exampleExporter
                 [exampleSpan 1 ''ab'', exampleSpan 2 ''cd'', exampleSpan 1 ''ab'']))) = 2
   \<and> duplicatesCount (fst (addToBuffer None exampleExporter
                 [exampleSpan 1 ''ab'', exampleSpan 2 ''cd'', exampleSpan 1 ''ab''])) = 1
   \<and> droppedCount (fst (addToBuffer None exampleExporter
                 [exampleSpan 1 ''ab'', exampleSpan 2 ''cd'', exampleSpan 1 ''ab''])) = 0
   \<and> maxBufferSpans fullExporter \<le> length (buffer fullExporter)
   \<and> droppedCount (fst (addToBuffer None fullExporter [exampleSpan 10000 ''work''])) = 1
   \<and> exporter (fst (addToBuffer None fullExporter [exampleSpan 10000 ''work''])) = fullExporter"
proof -
  let ?spans = "[exampleSpan 1 ''ab'', exampleSpan 2 ''cd'', exampleSpan 1 ''ab'']"
  have room: "length (buffer exampleExporter) + length ?spans \<le> maxBufferSpans exampleExporter"
    by (simp add: exampleExporter_fields)
  then have h: "length (buffer exampleExporter) + length ?spans \<le> maxBufferSpans exampleExporter
           \<or> maxBufferSpans exampleExporter \<le> length (buffer exampleExporter)"
    by blast
  have spec: "buffer (ap_this (append_records None exampleExporter ?spans)) = [buffered 1 ''ab'', buffered 2 ''cd'']
     \<and> ap_accepted (append_records None exampleExporter ?spans) = 2
     \<and> ap_duplicates (append_records None exampleExporter ?spans) = 1
     \<and> ap_dropped (append_records None exampleExporter ?spans) = 0"
    by (simp add: append_records_def append_record_def exampleExporter_fields spanKey_exampleSpan
        exampleSpanId_values buffered_def)
  have full: "maxBufferSpans fullExporter \<le> length (buffer fullExporter)"
    by (simp add: fullExporter_fields)
  then have h': "length (buffer fullExporter) + length [exampleSpan 10000 ''work''] \<le> maxBufferSpans fullExporter
           \<or> maxBufferSpans fullExporter \<le> length (buffer fullExporter)"
    by blast
  have spec': "ap_dropped (append_records None fullExporter [exampleSpan 10000 ''work'']) = 1
     \<and> ap_this (append_records None fullExporter [exampleSpan 10000 ''work'']) = fullExporter"
    by (simp add: append_records_def append_record_def fullExporter_fields)
  show ?thesis
    using addToBuffer_follows_append_rule [OF h, of None] room spec
      addToBuffer_follows_append_rule [OF h', of None] full spec'
    by simp
qed

text \<open>
  Claim C4 as stated fails: with the buffer full, a record whose key is tracked is counted
  as dropped, not as a duplicate.
\<close>

theorem addToBuffer_capacity_before_duplicates:
  "spanKey (serializeSpan None (exampleSpan 0 ''work'')) \<in> bufferSpanKeys fullExporter
   \<and> duplicatesCount (fst (addToBuffer None fullExporter [exampleSpan 0 ''work''])) = 0
   \<and> droppedCount (fst (addToBuffer None fullExporter [exampleSpan 0 ''work''])) = 1"
proof -
  have "spanKey (buffered 0 ''work'') \<in> bufferSpanKeys fullExporter"
    by (rule fullExporter_tracks) simp
  then show ?thesis
    by (simp add: addToBuffer_locals addToBuffer_step_def fullExporter_fields buffered_def)
qed

text \<open>
  Claim C10. For every call of \<open>export\<close>, the result callback is invoked exactly once,
  with the code SUCCESS, and at that moment the buffer is still the buffer from before the
  call: nothing has been buffered yet, whatever is dropped or skipped afterwards. No call
  reports a failure.
\<close>

theorem export_reports_success_once:
  "ex_callbacks (export env this spans) = [(SUCCESS, buffer this)]"
  by (simp add: export_def Let_def split: prod.split)

text \<open>
  A span exported into a full buffer is dropped, and the callback has reported SUCCESS; so has
  the callback of an empty call.
\<close>

theorem export_reports_success_once_witness:
  "ex_callbacks (export None fullExporter [exampleSpan 0 ''work'']) = [(SUCCESS, buffer fullExporter)]
   \<and> buffer (ex_this (export None fullExporter [exampleSpan 0 ''work''])) = buffer fullExporter
   \<and> ex_callbacks (export None fullExporter []) = [(SUCCESS, buffer fullExporter)]"
proof -
  have "addToBuffer_step None
          \<lparr>exporter = fullExporter, duplicatesCount = 0, droppedCount = 0, serializedSpans = []\<rparr>
          (exampleSpan 0 ''work'')
        = \<lparr>exporter = fullExporter, duplicatesCount = 0, droppedCount = 1, serializedSpans = []\<rparr>"
    by (simp add: addToBuffer_step_def fullExporter_fields)
  then have "buffer (ex_this (export None fullExporter [exampleSpan 0 ''work''])) = buffer fullExporter"
    by (simp add: export_def addToBuffer_def Let_def)
  then show ?thesis
    using export_reports_success_once [of None fullExporter "[exampleSpan 0 ''work'']"]
      export_reports_success_once [of None fullExporter "[]"]
    by simp
qed


section \<open>Properties of flush\<close>

lemma extends_refl: "extends t t"
  unfolding extends_def by (rule exI [of _ "[]"], rule exI [of _ "bufferSpanKeys t"]) simp

lemma extends_trans:
  assumes "extends a b" and "extends b c"
  shows "extends a c"
proof -
  obtain ys K where b: "b = a\<lparr>buffer := buffer a @ ys, bufferSpanKeys := K\<rparr>"
    using assms(1) unfolding extends_def by blast
  obtain zs K' where c: "c = b\<lparr>buffer := buffer b @ zs, bufferSpanKeys := K'\<rparr>"
    using assms(2) unfolding extends_def by blast
  have "c = a\<lparr>buffer := buffer a @ (ys @ zs), bufferSpanKeys := K'\<rparr>"
    by (simp add: b c)
  then show ?thesis unfolding extends_def by blast
qed

lemma extends_fields:
  assumes "extends t t'"
  shows "serverUrl t' = serverUrl t" "shutdownRequested t' = shutdownRequested t"
    "maxBatchSizeBytes t' = maxBatchSizeBytes t" "maxBufferSpans t' = maxBufferSpans t"
    "flushTimer t' = flushTimer t" "apiKey t' = apiKey t" "flushIntervalMs t' = flushIntervalMs t"
  using assms unfolding extends_def by auto

lemma extends_buffer: "extends t t' \<Longrightarrow> \<exists>ys. buffer t' = buffer t @ ys"
  unfolding extends_def by auto

lemma extends_push: "extends t (t\<lparr>buffer := buffer t @ ys\<rparr>)"
  unfolding extends_def by (rule exI [of _ ys], rule exI [of _ "bufferSpanKeys t"]) simp

lemma extends_keys: "extends t (t\<lparr>bufferSpanKeys := K\<rparr>)"
  unfolding extends_def by (rule exI [of _ "[]"], rule exI [of _ K]) simp

lemma addToBuffer_step_exporter:
  "\<exists>K. exporter (addToBuffer_step env l sp) = (exporter l)\<lparr>bufferSpanKeys := K\<rparr>"
proof (cases "spanKey (serializeSpan env sp) \<in> bufferSpanKeys (exporter l)
              \<or> maxBufferSpans (exporter l) \<le> length (buffer (exporter l))")
  case True
  then have "exporter (addToBuffer_step env l sp) = (exporter l)\<lparr>bufferSpanKeys := bufferSpanKeys (exporter l)\<rparr>"
    by (auto simp: addToBuffer_step_def Let_def)
  then show ?thesis by blast
next
  case False
  then have "exporter (addToBuffer_step env l sp)
      = (exporter l)\<lparr>bufferSpanKeys := insert (spanKey (serializeSpan env sp)) (bufferSpanKeys (exporter l))\<rparr>"
    by (auto simp: addToBuffer_step_def Let_def)
  then show ?thesis by blast
qed

lemma addToBuffer_fold_exporter:
  "\<exists>K. exporter (foldl (addToBuffer_step env) l spans) = (exporter l)\<lparr>bufferSpanKeys := K\<rparr>"
proof (induction spans arbitrary: l)
  case Nil
  show ?case by (intro exI [of _ "bufferSpanKeys (exporter l)"]) simp
next
  case (Cons sp spans)
  obtain K1 where k1: "exporter (addToBuffer_step env l sp) = (exporter l)\<lparr>bufferSpanKeys := K1\<rparr>"
    using addToBuffer_step_exporter by blast
  obtain K2 where "exporter (foldl (addToBuffer_step env) (addToBuffer_step env l sp) spans)
                   = (exporter (addToBuffer_step env l sp))\<lparr>bufferSpanKeys := K2\<rparr>"
    using Cons.IH by blast
  then have "exporter (foldl (addToBuffer_step env) l (sp # spans)) = (exporter l)\<lparr>bufferSpanKeys := K2\<rparr>"
    by (simp add: k1)
  then show ?case by blast
qed

lemma addToBuffer_extends: "extends this (exporter (fst (addToBuffer env this spans)))"
proof -
  let ?l = "foldl (addToBuffer_step env)
              \<lparr>exporter = this, duplicatesCount = 0, droppedCount = 0, serializedSpans = []\<rparr> spans"
  obtain K where "exporter ?l = this\<lparr>bufferSpanKeys := K\<rparr>"
    using addToBuffer_fold_exporter [of env "\<lparr>exporter = this, duplicatesCount = 0, droppedCount = 0, serializedSpans = []\<rparr>" spans]
    by auto
  then have "exporter (fst (addToBuffer env this spans))
      = this\<lparr>buffer := buffer this @ serializedSpans ?l, bufferSpanKeys := K\<rparr>"
    by (simp add: addToBuffer_locals Let_def)
  then show ?thesis unfolding extends_def by blast
qed

lemma export_extends: "extends this (ex_this (export env this spans))"
proof (cases "length spans = 0")
  case True
  then show ?thesis by (simp add: export_def extends_refl)
next
  case False
  then have "ex_this (export env this spans) = exporter (fst (addToBuffer env this spans))"
    by (simp add: export_def Let_def split: prod.split)
  then show ?thesis by (simp add: addToBuffer_extends)
qed

lemma runExports_extends: "extends this (runExports env this calls)"
proof (induction calls arbitrary: this)
  case Nil
  show ?case by (simp add: runExports_def extends_refl)
next
  case (Cons c calls)
  have a: "extends this (ex_this (export env this c))"
    by (rule export_extends)
  have b: "extends (ex_this (export env this c)) (runExports env (ex_this (export env this c)) calls)"
    by (rule Cons.IH)
  show ?case
    using extends_trans [OF a b] by (simp add: runExports_def)
qed

lemma runExports_append:
  "runExports env this (xs @ ys) = runExports env (runExports env this xs) ys"
  by (simp add: runExports_def)


lemma foldl_push: "foldl (\<lambda>buf remainingBatch. buf @ remainingBatch) xs yss = xs @ concat yss"
  by (induction yss arbitrary: xs) simp_all

lemma removeSpanKeysFromTracking_eq:
  "removeSpanKeysFromTracking t spans = t\<lparr>bufferSpanKeys := bufferSpanKeys t - spanKey ` set spans\<rparr>"
  unfolding removeSpanKeysFromTracking_def
proof (induction spans arbitrary: t)
  case Nil
  show ?case by simp
next
  case (Cons sp spans)
  have "bufferSpanKeys t - {spanKey sp} - spanKey ` set spans
        = bufferSpanKeys t - spanKey ` set (sp # spans)"
    by auto
  then show ?case
    by (simp add: Cons.IH)
qed

lemma sendSpans_serverUrl: "serverUrl t = serverUrl t' \<Longrightarrow> sendSpans t r = sendSpans t' r"
  by (simp add: sendSpans_def)

lemma flush_step_resolved:
  assumes "sendSpans (fl_this l) (fetchResult world i (bs ! i)) = None"
  shows "flush_step env world bs l i =
     l\<lparr>fl_this := runExports env (fl_this l) (exportsDuring world i),
       fl_sendCalls := fl_sendCalls l @ [bs ! i],
       successfullySentSpans := successfullySentSpans l @ bs ! i\<rparr>"
  using assms by (simp add: flush_step_def Let_def)

lemma flush_step_rejected:
  assumes "sendSpans (fl_this l) (fetchResult world i (bs ! i)) = Some message"
  shows "flush_step env world bs l i =
     l\<lparr>fl_this := (runExports env (fl_this l) (exportsDuring world i))
                      \<lparr>buffer := buffer (runExports env (fl_this l) (exportsDuring world i))
                                   @ concat (drop (Suc i) bs)\<rparr>,
       fl_sendCalls := fl_sendCalls l @ [bs ! i],
       errors := errors l @ [(i + 1, ''batch '' @ string_of_nat (i + 1) @ ''/'' @ string_of_nat (length bs)
                                       @ '': '' @ message)],
       fl_console := fl_console l @ [(ConsoleError, ''AIQA: Error sending '' @ ''batch '' @ string_of_nat (i + 1)
                                       @ ''/'' @ string_of_nat (length bs) @ '': '' @ message)]\<rparr>"
proof (cases "i + 1 < length bs")
  case True
  then show ?thesis
    using assms by (simp add: flush_step_def Let_def foldl_push)
next
  case False
  then have "drop (Suc i) bs = []" by simp
  then show ?thesis
    using assms False by (simp add: flush_step_def Let_def)
qed

lemma flush_step_extends: "extends (fl_this l) (fl_this (flush_step env world bs l i))"
proof (cases "sendSpans (fl_this l) (fetchResult world i (bs ! i))")
  case None
  then show ?thesis
    by (simp add: flush_step_resolved runExports_extends)
next
  case (Some message)
  have "extends (runExports env (fl_this l) (exportsDuring world i))
          ((runExports env (fl_this l) (exportsDuring world i))
                      \<lparr>buffer := buffer (runExports env (fl_this l) (exportsDuring world i))
                                   @ concat (drop (Suc i) bs)\<rparr>)"
    by (rule extends_push)
  then show ?thesis
    using extends_trans [OF runExports_extends] by (simp add: flush_step_rejected [OF Some])
qed

lemma flush_fold_extends: "extends (fl_this l) (fl_this (foldl (flush_step env world bs) l is))"
proof (induction "is" arbitrary: l)
  case Nil
  show ?case by (simp add: extends_refl)
next
  case (Cons i "is")
  show ?case
    using extends_trans [OF flush_step_extends Cons.IH] by simp
qed


lemma flush_step_sendCalls:
  "fl_sendCalls (flush_step env world bs l i) = fl_sendCalls l @ [bs ! i]"
  by (cases "sendSpans (fl_this l) (fetchResult world i (bs ! i))")
    (simp_all add: flush_step_resolved flush_step_rejected)

lemma flush_fold_sendCalls:
  "fl_sendCalls (foldl (flush_step env world bs) l is) = fl_sendCalls l @ map ((!) bs) is"
  by (induction "is" arbitrary: l) (simp_all add: flush_step_sendCalls)

lemma flush_step_sent:
  assumes "serverUrl (fl_this l) = serverUrl t"
  shows "successfullySentSpans (flush_step env world bs l i)
         = successfullySentSpans l
           @ (if sendSpans t (fetchResult world i (bs ! i)) = None then bs ! i else [])"
proof (cases "sendSpans (fl_this l) (fetchResult world i (bs ! i))")
  case None
  then show ?thesis
    using sendSpans_serverUrl [OF assms] by (simp add: flush_step_resolved)
next
  case (Some message)
  then show ?thesis
    using sendSpans_serverUrl [OF assms] by (simp add: flush_step_rejected [OF Some])
qed

lemma flush_step_serverUrl:
  "serverUrl (fl_this (flush_step env world bs l i)) = serverUrl (fl_this l)"
  using flush_step_extends by (rule extends_fields)

lemma flush_fold_sent:
  assumes "serverUrl (fl_this l) = serverUrl t"
  shows "successfullySentSpans (foldl (flush_step env world bs) l is)
         = successfullySentSpans l
           @ concat (map ((!) bs) (filter (\<lambda>i. sendSpans t (fetchResult world i (bs ! i)) = None) is))"
  using assms
proof (induction "is" arbitrary: l)
  case Nil
  show ?case by simp
next
  case (Cons i "is")
  have u: "serverUrl (fl_this (flush_step env world bs l i)) = serverUrl t"
    using Cons.prems by (simp add: flush_step_serverUrl)
  show ?case
    using Cons.IH [OF u] flush_step_sent [OF Cons.prems, of env world bs i] by simp
qed

lemma flush_step_errors:
  assumes "serverUrl (fl_this l) = serverUrl t"
  shows "errors (flush_step env world bs l i)
         = errors l
           @ (case sendSpans t (fetchResult world i (bs ! i)) of
                None \<Rightarrow> []
              | Some message \<Rightarrow>
                  [(i + 1, ''batch '' @ string_of_nat (i + 1) @ ''/'' @ string_of_nat (length bs)
                             @ '': '' @ message)])"
proof (cases "sendSpans (fl_this l) (fetchResult world i (bs ! i))")
  case None
  then show ?thesis
    using sendSpans_serverUrl [OF assms] by (simp add: flush_step_resolved)
next
  case (Some message)
  then show ?thesis
    using sendSpans_serverUrl [OF assms] by (simp add: flush_step_rejected [OF Some])
qed

lemma flush_fold_errors:
  assumes "serverUrl (fl_this l) = serverUrl t"
  shows "errors (foldl (flush_step env world bs) l is)
         = errors l
           @ concat (map (\<lambda>i. case sendSpans t (fetchResult world i (bs ! i)) of
                None \<Rightarrow> []
              | Some message \<Rightarrow>
                  [(i + 1, ''batch '' @ string_of_nat (i + 1) @ ''/'' @ string_of_nat (length bs)
                             @ '': '' @ message)]) is)"
  using assms
proof (induction "is" arbitrary: l)
  case Nil
  show ?case by simp
next
  case (Cons i "is")
  have u: "serverUrl (fl_this (flush_step env world bs l i)) = serverUrl t"
    using Cons.prems by (simp add: flush_step_serverUrl)
  show ?case
    using Cons.IH [OF u] flush_step_errors [OF Cons.prems, of env world bs i] by simp
qed

lemma flush_fold_all_resolved:
  assumes "serverUrl (fl_this l) = serverUrl t"
    and "\<forall>i \<in> set is. sendSpans t (fetchResult world i (bs ! i)) = None"
  shows "fl_this (foldl (flush_step env world bs) l is)
         = runExports env (fl_this l) (concat (map (exportsDuring world) is))"
  using assms
proof (induction "is" arbitrary: l)
  case Nil
  show ?case by (simp add: runExports_def)
next
  case (Cons i "is")
  have r: "sendSpans (fl_this l) (fetchResult world i (bs ! i)) = None"
    using Cons.prems sendSpans_serverUrl [OF Cons.prems(1)] by simp
  have u: "serverUrl (fl_this (flush_step env world bs l i)) = serverUrl t"
    using Cons.prems by (simp add: flush_step_serverUrl)
  show ?case
    using Cons.IH [OF u] Cons.prems(2)
    by (simp add: flush_step_resolved [OF r] runExports_append)
qed


lemma upt_split_at: "k < n \<Longrightarrow> [0..<n] = [0..<k] @ k # [Suc k..<n]"
  using upt_add_eq_append [of 0 k "n - k"] by (simp add: upt_conv_Cons)

lemma flush_sending:
  assumes "buffer this \<noteq> []" and "serverUrl this \<noteq> []"
  shows "\<exists>c. let l = flush_loop env world (fst (splitIntoBatches jsonSize (maxBatchSizeBytes this) (buffer this)))
                       (this\<lparr>buffer := []\<rparr>) c
        in fo_this (flush env jsonSize world this)
             = removeSpanKeysFromTracking (fl_this l) (successfullySentSpans l)
         \<and> fo_sendCalls (flush env jsonSize world this) = fl_sendCalls l
         \<and> fo_delivered (flush env jsonSize world this) = successfullySentSpans l
         \<and> fo_result (flush env jsonSize world this)
             = (if errors l \<noteq> [] \<and> shutdownRequested this
                then Inl (''Failed to send some spans: '' @ join ''; '' (map snd (errors l)))
                else Inr ())
         \<and> (errors l \<noteq> [] \<longrightarrow>
              fo_console (flush env jsonSize world this)
                = fl_console l @ [(ConsoleError, ''AIQA: Error flushing spans to server: ''
                     @ ''Failed to send some spans: '' @ join ''; '' (map snd (errors l)))])"
proof -
  let ?bs = "fst (splitIntoBatches jsonSize (maxBatchSizeBytes this) (buffer this))"
  let ?c = "snd (splitIntoBatches jsonSize (maxBatchSizeBytes this) (buffer this))
            @ (if length ?bs > 1
               then [(ConsoleLog, ''AIQA: flush() splitting '' @ string_of_nat (length (buffer this))
                        @ '' spans into '' @ string_of_nat (length ?bs) @ '' batches'')]
               else [])"
  let ?l = "flush_loop env world ?bs (this\<lparr>buffer := []\<rparr>) ?c"
  have ext: "extends (this\<lparr>buffer := []\<rparr>) (fl_this ?l)"
    using flush_fold_extends [of "\<lparr>fl_this = this\<lparr>buffer := []\<rparr>, successfullySentSpans = [], errors = [],
                                   fl_console = ?c, fl_sendCalls = []\<rparr>" env world ?bs "[0..<length ?bs]"]
    by (simp add: flush_loop_def)
  have sd: "shutdownRequested (fl_this ?l) = shutdownRequested this"
    using extends_fields(2) [OF ext] by simp
  have rm: "removeSpanKeysFromTracking (fl_this ?l) [] = fl_this ?l"
    by (simp add: removeSpanKeysFromTracking_def)
  have "let l = ?l
        in fo_this (flush env jsonSize world this)
             = removeSpanKeysFromTracking (fl_this l) (successfullySentSpans l)
         \<and> fo_sendCalls (flush env jsonSize world this) = fl_sendCalls l
         \<and> fo_delivered (flush env jsonSize world this) = successfullySentSpans l
         \<and> fo_result (flush env jsonSize world this)
             = (if errors l \<noteq> [] \<and> shutdownRequested this
                then Inl (''Failed to send some spans: '' @ join ''; '' (map snd (errors l)))
                else Inr ())
         \<and> (errors l \<noteq> [] \<longrightarrow>
              fo_console (flush env jsonSize world this)
                = fl_console l @ [(ConsoleError, ''AIQA: Error flushing spans to server: ''
                     @ ''Failed to send some spans: '' @ join ''; '' (map snd (errors l)))])"
    using assms sd rm
    by (simp add: flush_def Let_def case_prod_beta removeSpanKeysFromTracking_eq)
  then show ?thesis by blast
qed

lemma flush_loop_first_failure:
  assumes "serverUrl this0 = serverUrl t"
    and "k < length bs"
    and "\<forall>i<k. sendSpans t (fetchResult world i (bs ! i)) = None"
    and "sendSpans t (fetchResult world k (bs ! k)) = Some message"
  shows "\<exists>post. buffer (fl_this (flush_loop env world bs this0 c))
           = buffer (runExports env this0 (concat (map (exportsDuring world) [0..<Suc k])))
             @ concat (drop (Suc k) bs) @ post"
proof -
  let ?l0 = "\<lparr>fl_this = this0, successfullySentSpans = [], errors = [], fl_console = c, fl_sendCalls = []\<rparr>"
  let ?lk = "foldl (flush_step env world bs) ?l0 [0..<k]"
  let ?lk1 = "flush_step env world bs ?lk k"
  have whole: "flush_loop env world bs this0 c = foldl (flush_step env world bs) ?lk1 [Suc k..<length bs]"
    by (simp add: flush_loop_def upt_split_at [OF assms(2)])
  have before: "fl_this ?lk = runExports env this0 (concat (map (exportsDuring world) [0..<k]))"
    using flush_fold_all_resolved [of ?l0 t "[0..<k]" world bs env] assms(1,3) by simp
  have url: "serverUrl (fl_this ?lk) = serverUrl t"
    using extends_fields(1) [OF flush_fold_extends [of ?l0 env world bs "[0..<k]"]] assms(1) by simp
  have rej: "sendSpans (fl_this ?lk) (fetchResult world k (bs ! k)) = Some message"
    using sendSpans_serverUrl [OF url] assms(4) by simp
  have at_k: "buffer (fl_this ?lk1)
              = buffer (runExports env this0 (concat (map (exportsDuring world) [0..<Suc k])))
                @ concat (drop (Suc k) bs)"
    by (simp add: flush_step_rejected [OF rej] before runExports_append)
  obtain post where "buffer (fl_this (foldl (flush_step env world bs) ?lk1 [Suc k..<length bs]))
                     = buffer (fl_this ?lk1) @ post"
    using extends_buffer [OF flush_fold_extends] by blast
  then have "buffer (fl_this (flush_loop env world bs this0 c))
           = buffer (runExports env this0 (concat (map (exportsDuring world) [0..<Suc k])))
             @ concat (drop (Suc k) bs) @ post"
    by (simp add: whole at_k)
  then show ?thesis by blast
qed

section \<open>What a flush with failing sends does\<close>

lemma twoSpanExporter_fields:
  "serverUrl twoSpanExporter = ''http://localhost:3000''"
  "maxBatchSizeBytes twoSpanExporter = 5 * 1024 * 1024"
  "buffer twoSpanExporter = [spanA, spanB]"
  "bufferSpanKeys twoSpanExporter = {spanKey spanA, spanKey spanB}"
  "shutdownRequested twoSpanExporter = False"
  "maxBufferSpans twoSpanExporter = 10000"
  by (simp_all add: twoSpanExporter_def exampleExporter_fields)

lemma example_sizes: "exampleSize spanA = 3000000" "exampleSize spanB = 3000000" "exampleSize spanC = 3000000"
  by (simp_all add: spanA_def spanB_def spanC_def exampleSize_buffered)

lemma example_keys:
  "spanKey spanA = exampleTraceId @ '':0000000000000001''"
  "spanKey spanB = exampleTraceId @ '':0000000000000002''"
  "spanKey spanC = exampleTraceId @ '':0000000000000003''"
  by (simp_all add: spanA_def spanB_def spanC_def buffered_def spanKey_exampleSpan exampleSpanId_values)

lemma example_distinct: "spanA \<noteq> spanB" "spanC \<noteq> spanB" "spanC \<noteq> spanA"
  using example_keys by auto

lemma twoSpanExporter_batches:
  "fst (splitIntoBatches exampleSize (maxBatchSizeBytes twoSpanExporter) (buffer twoSpanExporter))
   = [[spanA], [spanB]]"
  by (simp add: twoSpanExporter_fields splitIntoBatches_batches splitIntoBatches_step_def
      example_sizes Let_def)

lemma string_of_nat_digits:
  "string_of_nat 1 = ''1''" "string_of_nat 2 = ''2''" "string_of_nat (Suc 0) = ''1''"
  "string_of_nat (Suc (Suc 0)) = ''2''"
  by (simp_all add: string_of_nat.simps char_of_eq_iff)

lemma flush_loop_quiet:
  "flush_loop None firstSendFails [[spanA], [spanB]] (twoSpanExporter\<lparr>buffer := []\<rparr>) c
   = \<lparr>fl_this = twoSpanExporter\<lparr>buffer := [spanB]\<rparr>,
      successfullySentSpans = [spanB],
      errors = [(1, ''batch 1/2: connect ECONNREFUSED'')],
      fl_console = c @ [(ConsoleError, ''AIQA: Error sending batch 1/2: connect ECONNREFUSED'')],
      fl_sendCalls = [[spanA], [spanB]]\<rparr>"
  by (simp add: flush_loop_def flush_step_def sendSpans_def firstSendFails_def runExports_def
      twoSpanExporter_fields string_of_nat_digits Let_def)


lemma flush_loop_errors:
  assumes "serverUrl this0 = serverUrl t"
  shows "map snd (errors (flush_loop env world bs this0 c)) = sendErrors t world bs"
proof -
  have m: "map snd (concat (map (\<lambda>i. case sendSpans t (fetchResult world i (bs ! i)) of
                None \<Rightarrow> []
              | Some message \<Rightarrow>
                  [(i + 1, ''batch '' @ string_of_nat (i + 1) @ ''/'' @ string_of_nat (length bs)
                             @ '': '' @ message)]) is))
        = concat (map (\<lambda>i. case sendSpans t (fetchResult world i (bs ! i)) of
                          None \<Rightarrow> []
                        | Some message \<Rightarrow>
                            [''batch '' @ string_of_nat (i + 1) @ ''/'' @ string_of_nat (length bs)
                               @ '': '' @ message]) is)" for "is"
    by (induction "is") (simp_all split: option.split)
  show ?thesis
    unfolding flush_loop_def sendErrors_def
    using flush_fold_errors [of "\<lparr>fl_this = this0, successfullySentSpans = [], errors = [],
                                   fl_console = c, fl_sendCalls = []\<rparr>" t env world bs "[0..<length bs]"]
      assms m
    by simp
qed

lemma sendErrors_nonempty:
  assumes "k < length bs" and "sendSpans t (fetchResult world k (bs ! k)) \<noteq> None"
  shows "sendErrors t world bs \<noteq> []"
proof -
  obtain message where "sendSpans t (fetchResult world k (bs ! k)) = Some message"
    using assms(2) by blast
  then show ?thesis
    unfolding sendErrors_def using assms(1) by (simp add: upt_split_at [OF assms(1)])
qed

lemma flush_loop_failure_at:
  assumes "serverUrl this0 = serverUrl t"
    and "k < length bs"
    and "sendSpans t (fetchResult world k (bs ! k)) = Some message"
  shows "\<exists>pre post. buffer (fl_this (flush_loop env world bs this0 c))
           = pre @ concat (drop (Suc k) bs) @ post"
proof -
  let ?l0 = "\<lparr>fl_this = this0, successfullySentSpans = [], errors = [], fl_console = c, fl_sendCalls = []\<rparr>"
  let ?lk = "foldl (flush_step env world bs) ?l0 [0..<k]"
  let ?lk1 = "flush_step env world bs ?lk k"
  have whole: "flush_loop env world bs this0 c = foldl (flush_step env world bs) ?lk1 [Suc k..<length bs]"
    by (simp add: flush_loop_def upt_split_at [OF assms(2)])
  have url: "serverUrl (fl_this ?lk) = serverUrl t"
    using extends_fields(1) [OF flush_fold_extends [of ?l0 env world bs "[0..<k]"]] assms(1) by simp
  have rej: "sendSpans (fl_this ?lk) (fetchResult world k (bs ! k)) = Some message"
    using sendSpans_serverUrl [OF url] assms(3) by simp
  have at_k: "buffer (fl_this ?lk1)
              = buffer (runExports env (fl_this ?lk) (exportsDuring world k)) @ concat (drop (Suc k) bs)"
    by (simp add: flush_step_rejected [OF rej])
  obtain post where "buffer (fl_this (foldl (flush_step env world bs) ?lk1 [Suc k..<length bs]))
                     = buffer (fl_this ?lk1) @ post"
    using extends_buffer [OF flush_fold_extends] by blast
  then have "buffer (fl_this (flush_loop env world bs this0 c))
           = buffer (runExports env (fl_this ?lk) (exportsDuring world k)) @ concat (drop (Suc k) bs) @ post"
    by (simp add: whole at_k)
  then show ?thesis by blast
qed

lemma flush_outcome:
  assumes "buffer this \<noteq> []" and "serverUrl this \<noteq> []"
    and "bs = fst (splitIntoBatches jsonSize (maxBatchSizeBytes this) (buffer this))"
  shows "fo_sendCalls (flush env jsonSize world this) = bs"
    and "fo_delivered (flush env jsonSize world this)
         = concat (map ((!) bs) (filter (\<lambda>i. sendSpans this (fetchResult world i (bs ! i)) = None)
                                        [0..<length bs]))"
    and "fo_result (flush env jsonSize world this)
         = (if sendErrors this world bs \<noteq> [] \<and> shutdownRequested this
            then Inl (''Failed to send some spans: '' @ join ''; '' (sendErrors this world bs))
            else Inr ())"
    and "sendErrors this world bs \<noteq> [] \<Longrightarrow>
         last (fo_console (flush env jsonSize world this))
         = (ConsoleError, ''AIQA: Error flushing spans to server: '' @ ''Failed to send some spans: ''
              @ join ''; '' (sendErrors this world bs))"
    and "\<And>sp. sp \<in> set (fo_delivered (flush env jsonSize world this))
           \<Longrightarrow> spanKey sp \<notin> bufferSpanKeys (fo_this (flush env jsonSize world this))"
    and "\<exists>c. buffer (fo_this (flush env jsonSize world this))
             = buffer (fl_this (flush_loop env world bs (this\<lparr>buffer := []\<rparr>) c))"
proof -
  obtain c where c: "let l = flush_loop env world bs (this\<lparr>buffer := []\<rparr>) c
        in fo_this (flush env jsonSize world this)
             = removeSpanKeysFromTracking (fl_this l) (successfullySentSpans l)
         \<and> fo_sendCalls (flush env jsonSize world this) = fl_sendCalls l
         \<and> fo_delivered (flush env jsonSize world this) = successfullySentSpans l
         \<and> fo_result (flush env jsonSize world this)
             = (if errors l \<noteq> [] \<and> shutdownRequested this
                then Inl (''Failed to send some spans: '' @ join ''; '' (map snd (errors l)))
                else Inr ())
         \<and> (errors l \<noteq> [] \<longrightarrow>
              fo_console (flush env jsonSize world this)
                = fl_console l @ [(ConsoleError, ''AIQA: Error flushing spans to server: ''
                     @ ''Failed to send some spans: '' @ join ''; '' (map snd (errors l)))])"
    using flush_sending [OF assms(1,2), of env world jsonSize] unfolding assms(3) by blast
  let ?l = "flush_loop env world bs (this\<lparr>buffer := []\<rparr>) c"
  have e: "map snd (errors ?l) = sendErrors this world bs"
    by (rule flush_loop_errors) simp
  then have e': "errors ?l \<noteq> [] \<longleftrightarrow> sendErrors this world bs \<noteq> []"
    by (metis map_is_Nil_conv)
  show "fo_sendCalls (flush env jsonSize world this) = bs"
    using c by (simp add: Let_def flush_loop_def flush_fold_sendCalls map_nth)
  show d: "fo_delivered (flush env jsonSize world this)
         = concat (map ((!) bs) (filter (\<lambda>i. sendSpans this (fetchResult world i (bs ! i)) = None)
                                        [0..<length bs]))"
    using c flush_fold_sent [of "\<lparr>fl_this = this\<lparr>buffer := []\<rparr>, successfullySentSpans = [], errors = [],
                                   fl_console = c, fl_sendCalls = []\<rparr>" this env world bs "[0..<length bs]"]
    by (simp add: Let_def flush_loop_def)
  show "fo_result (flush env jsonSize world this)
         = (if sendErrors this world bs \<noteq> [] \<and> shutdownRequested this
            then Inl (''Failed to send some spans: '' @ join ''; '' (sendErrors this world bs))
            else Inr ())"
    using c e e' by (simp add: Let_def)
  show "last (fo_console (flush env jsonSize world this))
         = (ConsoleError, ''AIQA: Error flushing spans to server: '' @ ''Failed to send some spans: ''
              @ join ''; '' (sendErrors this world bs))"
    if "sendErrors this world bs \<noteq> []"
    using c e e' that by (simp add: Let_def)
  show "spanKey sp \<notin> bufferSpanKeys (fo_this (flush env jsonSize world this))"
    if "sp \<in> set (fo_delivered (flush env jsonSize world this))" for sp
    using c that by (simp add: Let_def removeSpanKeysFromTracking_eq)
  have "buffer (fo_this (flush env jsonSize world this)) = buffer (fl_this ?l)"
    using c by (simp add: Let_def removeSpanKeysFromTracking_eq)
  then show "\<exists>c. buffer (fo_this (flush env jsonSize world this))
             = buffer (fl_this (flush_loop env world bs (this\<lparr>buffer := []\<rparr>) c))"
    by blast
qed

lemma batches_nonempty_buffer:
  assumes "bs = fst (splitIntoBatches jsonSize maxBytes spans)" and "k < length bs"
  shows "spans \<noteq> []"
  using assms by (auto simp: splitIntoBatches_def)

lemma addToBuffer_step_keepsClear:
  assumes "K \<subseteq> bufferSpanKeys (exporter l)" and "\<forall>y \<in> set (serializedSpans l). spanKey y \<notin> K"
  shows "K \<subseteq> bufferSpanKeys (exporter (addToBuffer_step env l sp))
       \<and> (\<forall>y \<in> set (serializedSpans (addToBuffer_step env l sp)). spanKey y \<notin> K)"
  using assms by (auto simp: addToBuffer_step_def Let_def)

lemma addToBuffer_fold_keepsClear:
  assumes "K \<subseteq> bufferSpanKeys (exporter l)" and "\<forall>y \<in> set (serializedSpans l). spanKey y \<notin> K"
  shows "K \<subseteq> bufferSpanKeys (exporter (foldl (addToBuffer_step env) l spans))
       \<and> (\<forall>y \<in> set (serializedSpans (foldl (addToBuffer_step env) l spans)). spanKey y \<notin> K)"
  using assms
proof (induction spans arbitrary: l)
  case Nil
  then show ?case by simp
next
  case (Cons sp spans)
  note s = addToBuffer_step_keepsClear [OF Cons.prems, of env sp]
  show ?case
    using Cons.IH [of "addToBuffer_step env l sp"] s by simp
qed

lemma addToBuffer_fold_buffer:
  "buffer (exporter (foldl (addToBuffer_step env) l spans)) = buffer (exporter l)"
  by (induction spans arbitrary: l) (simp_all add: addToBuffer_step_buffer)

lemma addToBuffer_keepsClear:
  assumes "keepsClear K this"
  shows "keepsClear K (exporter (fst (addToBuffer env this spans)))"
proof -
  let ?l0 = "\<lparr>exporter = this, duplicatesCount = 0, droppedCount = 0, serializedSpans = []\<rparr>"
  have "K \<subseteq> bufferSpanKeys (exporter (foldl (addToBuffer_step env) ?l0 spans))
       \<and> (\<forall>y \<in> set (serializedSpans (foldl (addToBuffer_step env) ?l0 spans)). spanKey y \<notin> K)"
    using assms by (intro addToBuffer_fold_keepsClear) (simp_all add: keepsClear_def)
  moreover have "buffer (exporter (foldl (addToBuffer_step env) ?l0 spans)) = buffer this"
    by (simp add: addToBuffer_fold_buffer)
  ultimately show ?thesis
    using assms by (auto simp: keepsClear_def addToBuffer_locals Let_def)
qed

lemma export_keepsClear:
  assumes "keepsClear K this"
  shows "keepsClear K (ex_this (export env this spans))"
proof (cases "length spans = 0")
  case True
  then show ?thesis using assms by (simp add: export_def)
next
  case False
  then have "ex_this (export env this spans) = exporter (fst (addToBuffer env this spans))"
    by (simp add: export_def Let_def split: prod.split)
  then show ?thesis by (simp add: addToBuffer_keepsClear [OF assms])
qed

lemma runExports_keepsClear:
  "keepsClear K this \<Longrightarrow> keepsClear K (runExports env this calls)"
proof (induction calls arbitrary: this)
  case Nil
  then show ?case by (simp add: runExports_def)
next
  case (Cons c calls)
  have "keepsClear K (ex_this (export env this c))"
    using Cons.prems by (rule export_keepsClear)
  then have "keepsClear K (runExports env (ex_this (export env this c)) calls)"
    by (rule Cons.IH)
  then show ?case by (simp add: runExports_def)
qed

lemma flush_step_keepsClear:
  assumes "keepsClear K (fl_this l)"
    and "sendSpans (fl_this l) (fetchResult world i (bs ! i)) \<noteq> None
         \<Longrightarrow> \<forall>y \<in> set (concat (drop (Suc i) bs)). spanKey y \<notin> K"
  shows "keepsClear K (fl_this (flush_step env world bs l i))"
proof (cases "sendSpans (fl_this l) (fetchResult world i (bs ! i))")
  case None
  then show ?thesis
    by (simp add: flush_step_resolved runExports_keepsClear [OF assms(1)])
next
  case (Some message)
  have "keepsClear K (runExports env (fl_this l) (exportsDuring world i))"
    by (rule runExports_keepsClear [OF assms(1)])
  moreover have "\<forall>y \<in> set (concat (drop (Suc i) bs)). spanKey y \<notin> K"
    using assms(2) Some by simp
  ultimately show ?thesis
    unfolding flush_step_rejected [OF Some] keepsClear_def by auto
qed

lemma flush_fold_keepsClear:
  assumes "keepsClear K (fl_this l)"
    and "serverUrl (fl_this l) = serverUrl t"
    and "\<forall>i \<in> set is. sendSpans t (fetchResult world i (bs ! i)) \<noteq> None
           \<longrightarrow> (\<forall>y \<in> set (concat (drop (Suc i) bs)). spanKey y \<notin> K)"
  shows "keepsClear K (fl_this (foldl (flush_step env world bs) l is))"
  using assms
proof (induction "is" arbitrary: l)
  case Nil
  then show ?case by simp
next
  case (Cons i "is")
  have same: "sendSpans (fl_this l) (fetchResult world i (bs ! i)) = sendSpans t (fetchResult world i (bs ! i))"
    by (rule sendSpans_serverUrl [OF Cons.prems(2)])
  have k: "keepsClear K (fl_this (flush_step env world bs l i))"
    using Cons.prems(1,3) same by (intro flush_step_keepsClear) simp_all
  have u: "serverUrl (fl_this (flush_step env world bs l i)) = serverUrl t"
    using Cons.prems(2) by (simp add: flush_step_serverUrl)
  show ?case
    using Cons.IH [OF k u] Cons.prems(3) by simp
qed


lemma flush_delivers_before_failure:
  assumes "k \<le> length bs" and "\<forall>i<k. ok i"
  shows "set (concat (take k bs)) \<subseteq> set (concat (map ((!) bs) (filter ok [0..<length bs])))"
proof
  fix sp
  assume "sp \<in> set (concat (take k bs))"
  then obtain b where b: "b \<in> set (take k bs)" and sp: "sp \<in> set b"
    by auto
  then obtain i where i: "i < k" "b = bs ! i"
    using assms(1) by (auto simp: in_set_conv_nth)
  then have "i \<in> set (filter ok [0..<length bs])"
    using assms by simp
  then show "sp \<in> set (concat (map ((!) bs) (filter ok [0..<length bs])))"
    using sp i(2) by auto
qed

lemma later_batches_other_keys:
  assumes "distinct (map spanKey (concat bs))" and "k \<le> i"
  shows "\<forall>y \<in> set (concat (drop (Suc i) bs)). spanKey y \<notin> spanKey ` set (concat (take k bs))"
proof -
  have "bs = take k bs @ drop k bs" by simp
  then have "distinct (map spanKey (concat (take k bs)) @ map spanKey (concat (drop k bs)))"
    using assms(1) by (metis concat_append map_append)
  then have disj: "spanKey ` set (concat (take k bs)) \<inter> spanKey ` set (concat (drop k bs)) = {}"
    by simp
  have "drop (Suc i) bs = drop (Suc i - k) (drop k bs)"
    using assms(2) by simp
  then have "set (drop (Suc i) bs) \<subseteq> set (drop k bs)"
    by (metis set_drop_subset)
  then have "set (concat (drop (Suc i) bs)) \<subseteq> set (concat (drop k bs))"
    by auto
  then show ?thesis using disj by blast
qed

text \<open>
  Claim C2, amended. For every flush whose drained spans split into the batches \<open>bs\<close>, if
  the send of batch \<open>k\<close> (counted from 0) is the first to fail, then after the flush the spans
  of the batches after \<open>k\<close> are in the buffer; every batch, also those after \<open>k\<close>, was
  still handed to \<open>sendSpans\<close> in that flush (the loop goes on after a failure); the spans
  of the batches before \<open>k\<close> were delivered and their keys are no longer tracked; and, when the
  buffered keys were distinct and tracked, none of those delivered spans is in the buffer.
  Nothing is said about the spans of batch \<open>k\<close> itself.
\<close>

theorem flush_failure_requeues_later_batches:
  assumes "bs = fst (splitIntoBatches jsonSize (maxBatchSizeBytes this) (buffer this))"
    and "serverUrl this \<noteq> []"
    and "k < length bs"
    and "\<forall>i<k. sendSpans this (fetchResult world i (bs ! i)) = None"
    and "sendSpans this (fetchResult world k (bs ! k)) \<noteq> None"
  shows "set (concat (drop (Suc k) bs)) \<subseteq> set (buffer (fo_this (flush env jsonSize world this)))
       \<and> fo_sendCalls (flush env jsonSize world this) = bs
       \<and> set (concat (take k bs)) \<subseteq> set (fo_delivered (flush env jsonSize world this))
       \<and> (\<forall>sp \<in> set (concat (take k bs)).
             spanKey sp \<notin> bufferSpanKeys (fo_this (flush env jsonSize world this)))
       \<and> (distinct (map spanKey (buffer this)) \<and> spanKey ` set (buffer this) \<subseteq> bufferSpanKeys this
            \<longrightarrow> (\<forall>sp \<in> set (concat (take k bs)).
                   sp \<notin> set (buffer (fo_this (flush env jsonSize world this)))))"
proof -
  let ?r = "flush env jsonSize world this"
  have ne: "buffer this \<noteq> []"
    using batches_nonempty_buffer [OF assms(1,3)] .
  note out = flush_outcome [OF ne assms(2,1), where env = env and world = world]
  obtain message where rej: "sendSpans this (fetchResult world k (bs ! k)) = Some message"
    using assms(5) by blast
  obtain c where c: "buffer (fo_this ?r) = buffer (fl_this (flush_loop env world bs (this\<lparr>buffer := []\<rparr>) c))"
    using out(6) by blast
  obtain pre post where "buffer (fl_this (flush_loop env world bs (this\<lparr>buffer := []\<rparr>) c))
       = pre @ concat (drop (Suc k) bs) @ post"
    using flush_loop_failure_at [where ?this0.0 = "this\<lparr>buffer := []\<rparr>" and t = this and k = k and bs = bs
          and world = world and message = message and env = env and c = c] assms(3) rej
    by auto
  then have a: "set (concat (drop (Suc k) bs)) \<subseteq> set (buffer (fo_this ?r))"
    using c by auto
  have b: "fo_sendCalls ?r = bs"
    by (rule out(1))
  have d: "set (concat (take k bs)) \<subseteq> set (fo_delivered ?r)"
    unfolding out(2) using assms(3,4) by (intro flush_delivers_before_failure) simp_all
  have e: "\<forall>sp \<in> set (concat (take k bs)). spanKey sp \<notin> bufferSpanKeys (fo_this ?r)"
    using d out(5) by blast
  have f: "\<forall>sp \<in> set (concat (take k bs)). sp \<notin> set (buffer (fo_this ?r))"
    if dist: "distinct (map spanKey (buffer this))"
      and tracked: "spanKey ` set (buffer this) \<subseteq> bufferSpanKeys this"
  proof -
    let ?K = "spanKey ` set (concat (take k bs))"
    have cc: "concat bs = buffer this"
      unfolding assms(1) by (rule concat_splitIntoBatches)
    have "set (concat (take k bs)) \<subseteq> set (concat bs)"
      by (metis append_take_drop_id concat_append set_append sup_ge1)
    then have K: "?K \<subseteq> bufferSpanKeys this"
      using tracked cc by auto
    have init: "keepsClear ?K (this\<lparr>buffer := []\<rparr>)"
      using K by (simp add: keepsClear_def)
    have later: "\<forall>i \<in> set [0..<length bs]. sendSpans this (fetchResult world i (bs ! i)) \<noteq> None
           \<longrightarrow> (\<forall>y \<in> set (concat (drop (Suc i) bs)). spanKey y \<notin> ?K)"
    proof (rule ballI, rule impI)
      fix i
      assume "i \<in> set [0..<length bs]" and fails: "sendSpans this (fetchResult world i (bs ! i)) \<noteq> None"
      have "k \<le> i"
        using fails assms(4) by (meson not_le_imp_less)
      then show "\<forall>y \<in> set (concat (drop (Suc i) bs)). spanKey y \<notin> ?K"
        using later_batches_other_keys [of bs k i] dist cc by simp
    qed
    have "keepsClear ?K (fl_this (foldl (flush_step env world bs)
             \<lparr>fl_this = this\<lparr>buffer := []\<rparr>, successfullySentSpans = [], errors = [],
              fl_console = c, fl_sendCalls = []\<rparr> [0..<length bs]))"
    proof (rule flush_fold_keepsClear [where t = this])
      show "keepsClear ?K (fl_this \<lparr>fl_this = this\<lparr>buffer := []\<rparr>, successfullySentSpans = [], errors = [],
              fl_console = c, fl_sendCalls = []\<rparr>)"
        using init by simp
      show "serverUrl (fl_this \<lparr>fl_this = this\<lparr>buffer := []\<rparr>, successfullySentSpans = [], errors = [],
              fl_console = c, fl_sendCalls = []\<rparr>) = serverUrl this"
        by simp
      show "\<forall>i \<in> set [0..<length bs]. sendSpans this (fetchResult world i (bs ! i)) \<noteq> None
           \<longrightarrow> (\<forall>y \<in> set (concat (drop (Suc i) bs)). spanKey y \<notin> ?K)"
        by (rule later)
    qed
    then have "keepsClear ?K (fl_this (flush_loop env world bs (this\<lparr>buffer := []\<rparr>) c))"
      by (simp add: flush_loop_def)
    then have "\<forall>y \<in> set (buffer (fo_this ?r)). spanKey y \<notin> ?K"
      using c by (simp add: keepsClear_def)
    then show ?thesis by blast
  qed
  show ?thesis
    using a b d e f by blast
qed

lemma threeSpanExporter_fields:
  "serverUrl threeSpanExporter = ''http://localhost:3000''"
  "maxBatchSizeBytes threeSpanExporter = 5 * 1024 * 1024"
  "buffer threeSpanExporter = [spanA, spanB, spanC]"
  "bufferSpanKeys threeSpanExporter = {spanKey spanA, spanKey spanB, spanKey spanC}"
  "shutdownRequested threeSpanExporter = False"
  by (simp_all add: threeSpanExporter_def exampleExporter_fields)

lemma threeSpanExporter_batches:
  "fst (splitIntoBatches exampleSize (maxBatchSizeBytes threeSpanExporter) (buffer threeSpanExporter))
   = [[spanA], [spanB], [spanC]]"
  by (simp add: threeSpanExporter_fields splitIntoBatches_batches splitIntoBatches_step_def
      example_sizes Let_def)

text \<open>
  Three batches, the second send refused: the third span is back in the buffer, all three
  batches were handed to \<open>sendSpans\<close>, the first span is delivered, released and gone.
\<close>

theorem flush_failure_requeues_later_batches_witness:
  "spanC \<in> set (buffer (fo_this (flush None exampleSize secondSendFails threeSpanExporter)))
   \<and> fo_sendCalls (flush None exampleSize secondSendFails threeSpanExporter) = [[spanA], [spanB], [spanC]]
   \<and> spanA \<in> set (fo_delivered (flush None exampleSize secondSendFails threeSpanExporter))
   \<and> spanKey spanA \<notin> bufferSpanKeys (fo_this (flush None exampleSize secondSendFails threeSpanExporter))
   \<and> spanA \<notin> set (buffer (fo_this (flush None exampleSize secondSendFails threeSpanExporter)))"
proof -
  let ?bs = "[[spanA], [spanB], [spanC]]"
  have bs: "?bs = fst (splitIntoBatches exampleSize (maxBatchSizeBytes threeSpanExporter) (buffer threeSpanExporter))"
    by (simp only: threeSpanExporter_batches)
  have url: "serverUrl threeSpanExporter \<noteq> []"
    by (simp add: threeSpanExporter_fields)
  have k: "(1::nat) < length ?bs" by simp
  have ok: "\<forall>i<1. sendSpans threeSpanExporter (fetchResult secondSendFails i (?bs ! i)) = None"
    by (simp add: sendSpans_def secondSendFails_def threeSpanExporter_fields)
  have fails: "sendSpans threeSpanExporter (fetchResult secondSendFails 1 (?bs ! 1)) \<noteq> None"
    by (simp add: sendSpans_def secondSendFails_def threeSpanExporter_fields)
  have inv: "distinct (map spanKey (buffer threeSpanExporter))
             \<and> spanKey ` set (buffer threeSpanExporter) \<subseteq> bufferSpanKeys threeSpanExporter"
    by (simp add: threeSpanExporter_fields example_keys)
  show ?thesis
    using flush_failure_requeues_later_batches [OF bs url k ok fails, of None] inv
    by simp
qed


lemma flush_quiet_example:
  "buffer (fo_this (flush None exampleSize firstSendFails twoSpanExporter)) = [spanB]
   \<and> fo_sendCalls (flush None exampleSize firstSendFails twoSpanExporter) = [[spanA], [spanB]]
   \<and> fo_delivered (flush None exampleSize firstSendFails twoSpanExporter) = [spanB]"
proof -
  have ne: "buffer twoSpanExporter \<noteq> []" and url: "serverUrl twoSpanExporter \<noteq> []"
    by (simp_all add: twoSpanExporter_fields)
  show ?thesis
    using flush_sending [OF ne url, of None firstSendFails exampleSize]
    unfolding twoSpanExporter_batches flush_loop_quiet
    by (auto simp: Let_def removeSpanKeysFromTracking_eq)
qed

text \<open>
  Claim C2 as stated fails. Two batches, the first send refused: the span of the failed batch
  is not in the buffer after the flush, and the second batch was still sent.
\<close>

theorem flush_failed_batch_is_not_requeued:
  "fst (splitIntoBatches exampleSize (maxBatchSizeBytes twoSpanExporter) (buffer twoSpanExporter))
     = [[spanA], [spanB]]
   \<and> sendSpans twoSpanExporter (fetchResult firstSendFails 0 [spanA]) \<noteq> None
   \<and> spanA \<notin> set (buffer (fo_this (flush None exampleSize firstSendFails twoSpanExporter)))
   \<and> fo_sendCalls (flush None exampleSize firstSendFails twoSpanExporter) = [[spanA], [spanB]]"
proof -
  have "sendSpans twoSpanExporter (fetchResult firstSendFails 0 [spanA]) \<noteq> None"
    by (simp add: sendSpans_def firstSendFails_def twoSpanExporter_fields)
  then show ?thesis
    using flush_quiet_example example_distinct by (simp add: twoSpanExporter_batches)
qed


lemma flush_keeps_serverUrl:
  "serverUrl (fo_this (flush env jsonSize world this)) = serverUrl this"
proof (cases "buffer this = [] \<or> serverUrl this = []")
  case True
  then show ?thesis
    by (auto simp: flush_def Let_def removeSpanKeysFromTracking_eq)
next
  case False
  then obtain c where "fo_this (flush env jsonSize world this)
      = removeSpanKeysFromTracking
          (fl_this (flush_loop env world (fst (splitIntoBatches jsonSize (maxBatchSizeBytes this) (buffer this)))
                     (this\<lparr>buffer := []\<rparr>) c))
          (successfullySentSpans (flush_loop env world (fst (splitIntoBatches jsonSize (maxBatchSizeBytes this) (buffer this)))
                     (this\<lparr>buffer := []\<rparr>) c))"
    using flush_sending [of this env world jsonSize] by (auto simp: Let_def)
  moreover have "serverUrl (fl_this (flush_loop env world bs (this\<lparr>buffer := []\<rparr>) c)) = serverUrl this" for bs
    using extends_fields(1) [OF flush_fold_extends [of "\<lparr>fl_this = this\<lparr>buffer := []\<rparr>, successfullySentSpans = [],
            errors = [], fl_console = c, fl_sendCalls = []\<rparr>" env world bs "[0..<length bs]"]]
    by (simp add: flush_loop_def)
  ultimately show ?thesis
    by (simp add: removeSpanKeysFromTracking_eq)
qed

lemma flush_hands_over_buffer:
  assumes "serverUrl t \<noteq> []"
  shows "concat (fo_sendCalls (flush env jsonSize world t)) = buffer t"
proof (cases "buffer t = []")
  case True
  then show ?thesis by (simp add: flush_def)
next
  case False
  show ?thesis
    using flush_outcome(1) [OF False assms refl, of env jsonSize world]
    by (simp add: concat_splitIntoBatches)
qed

text \<open>
  Claim C3, amended. For every flush whose first failing send is that of batch \<open>k\<close>, the
  spans of the batches after \<open>k\<close> are pushed at the end of the buffer, contiguous and in
  their original order: ahead of them is exactly what \<open>export\<close> calls put in the buffer
  while the sends up to the failing one were awaited, behind them whatever comes later. So
  the next flush, after any further \<open>export\<close> calls, hands them to \<open>sendSpans\<close> in that
  order, ahead of everything accepted after the failure.
\<close>

theorem flush_pushes_back_behind_in_flight:
  assumes "bs = fst (splitIntoBatches jsonSize (maxBatchSizeBytes this) (buffer this))"
    and "serverUrl this \<noteq> []"
    and "k < length bs"
    and "\<forall>i<k. sendSpans this (fetchResult world i (bs ! i)) = None"
    and "sendSpans this (fetchResult world k (bs ! k)) \<noteq> None"
  shows "(\<exists>post. buffer (fo_this (flush env jsonSize world this))
            = buffer (runExports env (this\<lparr>buffer := []\<rparr>) (concat (map (exportsDuring world) [0..<Suc k])))
              @ concat (drop (Suc k) bs) @ post)
       \<and> (\<forall>later world'. \<exists>post.
            concat (fo_sendCalls (flush env jsonSize world'
                      (runExports env (fo_this (flush env jsonSize world this)) later)))
            = buffer (runExports env (this\<lparr>buffer := []\<rparr>) (concat (map (exportsDuring world) [0..<Suc k])))
              @ concat (drop (Suc k) bs) @ post)"
proof -
  let ?r = "flush env jsonSize world this"
  let ?pre = "buffer (runExports env (this\<lparr>buffer := []\<rparr>) (concat (map (exportsDuring world) [0..<Suc k])))"
  have ne: "buffer this \<noteq> []"
    using batches_nonempty_buffer [OF assms(1,3)] .
  obtain message where rej: "sendSpans this (fetchResult world k (bs ! k)) = Some message"
    using assms(5) by blast
  obtain c where c: "buffer (fo_this ?r) = buffer (fl_this (flush_loop env world bs (this\<lparr>buffer := []\<rparr>) c))"
    using flush_outcome(6) [OF ne assms(2,1), where env = env and world = world] by blast
  obtain post where post: "buffer (fl_this (flush_loop env world bs (this\<lparr>buffer := []\<rparr>) c))
       = ?pre @ concat (drop (Suc k) bs) @ post"
    using flush_loop_first_failure [where ?this0.0 = "this\<lparr>buffer := []\<rparr>" and t = this and k = k
        and bs = bs and world = world and message = message and env = env and c = c] assms(3,4) rej
    by auto
  have first: "buffer (fo_this ?r) = ?pre @ concat (drop (Suc k) bs) @ post"
    using c post by simp
  have second: "\<exists>post'. concat (fo_sendCalls (flush env jsonSize world' (runExports env (fo_this ?r) later)))
            = ?pre @ concat (drop (Suc k) bs) @ post'" for later world'
  proof -
    have ext: "extends (fo_this ?r) (runExports env (fo_this ?r) later)"
      by (rule runExports_extends)
    have "serverUrl (runExports env (fo_this ?r) later) \<noteq> []"
      using extends_fields(1) [OF ext] flush_keeps_serverUrl [of env jsonSize world this] assms(2) by simp
    then have "concat (fo_sendCalls (flush env jsonSize world' (runExports env (fo_this ?r) later)))
               = buffer (runExports env (fo_this ?r) later)"
      by (rule flush_hands_over_buffer)
    moreover obtain ys where "buffer (runExports env (fo_this ?r) later) = buffer (fo_this ?r) @ ys"
      using extends_buffer [OF ext] by blast
    ultimately have "concat (fo_sendCalls (flush env jsonSize world' (runExports env (fo_this ?r) later)))
               = ?pre @ concat (drop (Suc k) bs) @ (post @ ys)"
      using first by simp
    then show ?thesis by blast
  qed
  show ?thesis
    using first second by blast
qed


lemma runExports_busy:
  "runExports None (twoSpanExporter\<lparr>buffer := []\<rparr>) [[exampleSpan 3 ''new'']]
   = twoSpanExporter\<lparr>buffer := [spanC], bufferSpanKeys := {spanKey spanC, spanKey spanA, spanKey spanB}\<rparr>"
proof -
  have c: "serializeSpan None (exampleSpan 3 ''new'') = spanC"
    by (simp add: spanC_def buffered_def)
  show ?thesis
    by (simp add: runExports_def export_def addToBuffer_def addToBuffer_step_def c
        twoSpanExporter_fields example_keys Let_def)
qed

lemma flush_loop_busy:
  "buffer (fl_this (flush_loop None firstSendFailsBusy [[spanA], [spanB]] (twoSpanExporter\<lparr>buffer := []\<rparr>) c))
   = [spanC, spanB]"
  by (simp add: flush_loop_def flush_step_def sendSpans_def firstSendFailsBusy_def runExports_busy
      twoSpanExporter_fields Let_def)
    (simp add: runExports_def)

lemma fourSpanExporter_fields:
  "serverUrl fourSpanExporter = ''http://localhost:3000''"
  "maxBatchSizeBytes fourSpanExporter = 5 * 1024 * 1024"
  "buffer fourSpanExporter = [spanA, spanB, spanC, spanD]"
  by (simp_all add: fourSpanExporter_def exampleExporter_fields)

lemma fourSpanExporter_batches:
  "fst (splitIntoBatches exampleSize (maxBatchSizeBytes fourSpanExporter) (buffer fourSpanExporter))
   = [[spanA], [spanB], [spanC], [spanD]]"
  by (simp add: fourSpanExporter_fields splitIntoBatches_batches splitIntoBatches_step_def
      example_sizes spanD_def exampleSize_buffered Let_def)

lemma flush_loop_all_fail:
  "buffer (fl_this (flush_loop None allSendsFail [[spanA], [spanB], [spanC], [spanD]]
                      (fourSpanExporter\<lparr>buffer := []\<rparr>) c))
   = [spanB, spanC, spanD, spanC, spanD, spanD]"
  by (simp add: flush_loop_def flush_step_def sendSpans_def allSendsFail_def runExports_def
      fourSpanExporter_fields upt_rec Let_def)

text \<open>
  Claim C3 as stated fails: the spans pushed back are not put at the front of the buffer. A
  span exported while the failing send was awaited stays ahead of them. And when all four
  sends of a flush fail, every failure pushes the batches after it, so that the buffer holds
  them repeated and no longer in their original order.
\<close>

theorem flush_pushes_back_at_the_end:
  "sendSpans twoSpanExporter (fetchResult firstSendFailsBusy 0 [spanA]) \<noteq> None
   \<and> buffer (fo_this (flush None exampleSize firstSendFailsBusy twoSpanExporter)) = [spanC, spanB]
   \<and> hd (buffer (fo_this (flush None exampleSize firstSendFailsBusy twoSpanExporter))) \<noteq> spanB
   \<and> buffer (fo_this (flush None exampleSize allSendsFail fourSpanExporter))
       = [spanB, spanC, spanD, spanC, spanD, spanD]"
proof -
  have ne: "buffer twoSpanExporter \<noteq> []" and url: "serverUrl twoSpanExporter \<noteq> []"
    by (simp_all add: twoSpanExporter_fields)
  have f: "sendSpans twoSpanExporter (fetchResult firstSendFailsBusy 0 [spanA]) \<noteq> None"
    by (simp add: sendSpans_def firstSendFailsBusy_def twoSpanExporter_fields)
  have busy: "buffer (fo_this (flush None exampleSize firstSendFailsBusy twoSpanExporter)) = [spanC, spanB]"
    using flush_outcome(6) [OF ne url refl, of None exampleSize firstSendFailsBusy]
    unfolding twoSpanExporter_batches flush_loop_busy by blast
  have ne4: "buffer fourSpanExporter \<noteq> []" and url4: "serverUrl fourSpanExporter \<noteq> []"
    by (simp_all add: fourSpanExporter_fields)
  have down: "buffer (fo_this (flush None exampleSize allSendsFail fourSpanExporter))
       = [spanB, spanC, spanD, spanC, spanD, spanD]"
    using flush_outcome(6) [OF ne4 url4 refl, of None exampleSize allSendsFail]
    unfolding fourSpanExporter_batches flush_loop_all_fail by blast
  show ?thesis
    using f busy down example_distinct by simp
qed

text \<open>
  The amended claim at the same input: the span exported in flight, then the span pushed
  back, then anything later.
\<close>

theorem flush_pushes_back_behind_in_flight_witness:
  "(\<exists>post. buffer (fo_this (flush None exampleSize firstSendFailsBusy twoSpanExporter))
            = spanC # spanB # post)
   \<and> (\<forall>later world'. \<exists>post.
        concat (fo_sendCalls (flush None exampleSize world'
                  (runExports None (fo_this (flush None exampleSize firstSendFailsBusy twoSpanExporter)) later)))
        = spanC # spanB # post)"
proof -
  let ?bs = "[[spanA], [spanB]]"
  have bs: "?bs = fst (splitIntoBatches exampleSize (maxBatchSizeBytes twoSpanExporter) (buffer twoSpanExporter))"
    by (simp only: twoSpanExporter_batches)
  have url: "serverUrl twoSpanExporter \<noteq> []"
    by (simp add: twoSpanExporter_fields)
  have k: "(0::nat) < length ?bs" by simp
  have ok: "\<forall>i<0. sendSpans twoSpanExporter (fetchResult firstSendFailsBusy i (?bs ! i)) = None"
    by simp
  have fails: "sendSpans twoSpanExporter (fetchResult firstSendFailsBusy 0 (?bs ! 0)) \<noteq> None"
    by (simp add: sendSpans_def firstSendFailsBusy_def twoSpanExporter_fields)
  have pre: "buffer (runExports None (twoSpanExporter\<lparr>buffer := []\<rparr>)
                 (concat (map (exportsDuring firstSendFailsBusy) [0..<Suc 0]))) = [spanC]"
    using runExports_busy by (simp add: firstSendFailsBusy_def)
  show ?thesis
    using flush_pushes_back_behind_in_flight [OF bs url k ok fails, of None] pre
    by simp
qed


lemma sendErrors_serverUrl: "serverUrl t = serverUrl t' \<Longrightarrow> sendErrors t world bs = sendErrors t' world bs"
  by (simp add: sendErrors_def sendSpans_def)

lemma autoFlushTick_never_throws: "fo_result (autoFlushTick env jsonSize world this) = Inr ()"
  by (cases "fo_result (flush env jsonSize world this)") (simp_all add: autoFlushTick_def Let_def)

text \<open>
  Claim C8, amended. Whenever at least one send of a flush fails, \<open>flush\<close> raises the
  aggregated error \<open>Failed to send some spans: ...\<close> (the messages of the failed batches
  joined by \<open>; \<close>) after the push-back and the release of the delivered keys, and writes it
  to the console. The error reaches the caller of \<open>flush\<close> only when shutdown was requested;
  otherwise \<open>flush\<close> resolves. The auto-flush callback never lets an error out, and
  \<open>shutdown\<close> rejects with it.
\<close>

theorem flush_reports_failure:
  assumes "bs = fst (splitIntoBatches jsonSize (maxBatchSizeBytes this) (buffer this))"
    and "serverUrl this \<noteq> []"
    and "k < length bs"
    and "sendSpans this (fetchResult world k (bs ! k)) \<noteq> None"
  shows "sendErrors this world bs \<noteq> []
       \<and> fo_result (flush env jsonSize world this)
           = (if shutdownRequested this
              then Inl (''Failed to send some spans: '' @ join ''; '' (sendErrors this world bs))
              else Inr ())
       \<and> last (fo_console (flush env jsonSize world this))
           = (ConsoleError, ''AIQA: Error flushing spans to server: Failed to send some spans: ''
                @ join ''; '' (sendErrors this world bs))
       \<and> (\<exists>pre post. buffer (fo_this (flush env jsonSize world this)) = pre @ concat (drop (Suc k) bs) @ post)
       \<and> (\<forall>sp \<in> set (fo_delivered (flush env jsonSize world this)).
             spanKey sp \<notin> bufferSpanKeys (fo_this (flush env jsonSize world this)))
       \<and> fo_result (autoFlushTick env jsonSize world this) = Inr ()
       \<and> fo_result (shutdown env jsonSize world this)
           = Inl (''Failed to send some spans: '' @ join ''; '' (sendErrors this world bs))"
proof -
  let ?r = "flush env jsonSize world this"
  have ne: "buffer this \<noteq> []"
    using batches_nonempty_buffer [OF assms(1,3)] .
  note out = flush_outcome [OF ne assms(2,1), where env = env and world = world]
  have errs: "sendErrors this world bs \<noteq> []"
    using assms(3,4) by (rule sendErrors_nonempty)
  obtain message where rej: "sendSpans this (fetchResult world k (bs ! k)) = Some message"
    using assms(4) by blast
  obtain c where c: "buffer (fo_this ?r) = buffer (fl_this (flush_loop env world bs (this\<lparr>buffer := []\<rparr>) c))"
    using out(6) by blast
  have requeue: "\<exists>pre post. buffer (fo_this ?r) = pre @ concat (drop (Suc k) bs) @ post"
    unfolding c
    using flush_loop_failure_at [where ?this0.0 = "this\<lparr>buffer := []\<rparr>" and t = this and k = k and bs = bs
          and world = world and message = message and env = env and c = c] assms(3) rej
    by simp
  have release: "\<forall>sp \<in> set (fo_delivered ?r). spanKey sp \<notin> bufferSpanKeys (fo_this ?r)"
    using out(5) by blast
  have res: "fo_result ?r = (if shutdownRequested this
              then Inl (''Failed to send some spans: '' @ join ''; '' (sendErrors this world bs))
              else Inr ())"
    using out(3) errs by simp
  have logged: "last (fo_console ?r)
           = (ConsoleError, ''AIQA: Error flushing spans to server: Failed to send some spans: ''
                @ join ''; '' (sendErrors this world bs))"
    using out(4) [OF errs] by simp
  let ?this2 = "if flushTimer (this\<lparr>shutdownRequested := True\<rparr>)
                then this\<lparr>shutdownRequested := True\<rparr>\<lparr>flushTimer := False\<rparr>
                else this\<lparr>shutdownRequested := True\<rparr>"
  have s1: "shutdown env jsonSize world this = flush env jsonSize world ?this2"
    by (simp add: shutdown_def Let_def)
  have s2: "buffer ?this2 = buffer this" "serverUrl ?this2 = serverUrl this"
    "maxBatchSizeBytes ?this2 = maxBatchSizeBytes this" "shutdownRequested ?this2"
    by simp_all
  have bs2: "bs = fst (splitIntoBatches jsonSize (maxBatchSizeBytes ?this2) (buffer ?this2))"
    using assms(1) s2 by simp
  have ne2: "buffer ?this2 \<noteq> []" and url2: "serverUrl ?this2 \<noteq> []"
    using ne assms(2) s2 by simp_all
  have e2: "sendErrors ?this2 world bs = sendErrors this world bs"
    by (rule sendErrors_serverUrl) (simp add: s2)
  have down: "fo_result (shutdown env jsonSize world this)
           = Inl (''Failed to send some spans: '' @ join ''; '' (sendErrors this world bs))"
    unfolding s1
    using flush_outcome(3) [OF ne2 url2 bs2, where env = env and world = world] errs s2(4)
    by (simp only: e2 if_True simp_thms)
  show ?thesis
    using errs res logged requeue release autoFlushTick_never_throws down by blast
qed

lemma sendErrors_quiet:
  "sendErrors twoSpanExporter firstSendFails [[spanA], [spanB]] = [''batch 1/2: connect ECONNREFUSED'']"
  by (simp add: sendErrors_def sendSpans_def firstSendFails_def twoSpanExporter_fields
      string_of_nat_digits upt_rec)

text \<open>
  The first of two sends refused: \<open>shutdown\<close> rejects with the aggregated message, which a
  plain flush writes to the console; the timer's callback resolves.
\<close>

theorem flush_reports_failure_witness:
  "fo_result (shutdown None exampleSize firstSendFails twoSpanExporter)
     = Inl ''Failed to send some spans: batch 1/2: connect ECONNREFUSED''
   \<and> last (fo_console (flush None exampleSize firstSendFails twoSpanExporter))
     = (ConsoleError, ''AIQA: Error flushing spans to server: Failed to send some spans: batch 1/2: connect ECONNREFUSED'')
   \<and> fo_result (autoFlushTick None exampleSize firstSendFails twoSpanExporter) = Inr ()"
proof -
  let ?bs = "[[spanA], [spanB]]"
  have bs: "?bs = fst (splitIntoBatches exampleSize (maxBatchSizeBytes twoSpanExporter) (buffer twoSpanExporter))"
    by (simp only: twoSpanExporter_batches)
  have url: "serverUrl twoSpanExporter \<noteq> []"
    by (simp add: twoSpanExporter_fields)
  have k: "(0::nat) < length ?bs" by simp
  have fails: "sendSpans twoSpanExporter (fetchResult firstSendFails 0 (?bs ! 0)) \<noteq> None"
    by (simp add: sendSpans_def firstSendFails_def twoSpanExporter_fields)
  show ?thesis
    using flush_reports_failure [OF bs url k fails, of None]
    by (simp add: sendErrors_quiet twoSpanExporter_fields)
qed

text \<open>
  Claim C8 as stated fails: outside shutdown a flush whose first send is refused resolves; no
  failure reaches its caller.
\<close>

theorem flush_swallows_failure_outside_shutdown:
  "sendSpans twoSpanExporter (fetchResult firstSendFails 0 [spanA]) \<noteq> None
   \<and> shutdownRequested twoSpanExporter = False
   \<and> fo_result (flush None exampleSize firstSendFails twoSpanExporter) = Inr ()"
proof -
  have ne: "buffer twoSpanExporter \<noteq> []" and url: "serverUrl twoSpanExporter \<noteq> []"
    by (simp_all add: twoSpanExporter_fields)
  have "sendSpans twoSpanExporter (fetchResult firstSendFails 0 [spanA]) \<noteq> None"
    by (simp add: sendSpans_def firstSendFails_def twoSpanExporter_fields)
  moreover have "fo_result (flush None exampleSize firstSendFails twoSpanExporter) = Inr ()"
    using flush_outcome(3) [OF ne url refl, of None exampleSize firstSendFails]
    by (simp add: twoSpanExporter_fields)
  ultimately show ?thesis
    by (simp add: twoSpanExporter_fields)
qed

section \<open>The flush lock is not a lock\<close>

text \<open>
  A call of \<open>flush\<close> made after another call has stored its own promise does wait: it
  cannot resume before the first call's sends settle.
\<close>

lemma flushLock_second_call_waits:
  "lockRun initialLock [Export (1::nat), CallFlush, Resume 0, CallFlush, Resume 1] = None"
  by (simp add: initialLock_def Let_def)

lemma flushLock_second_call_runs_after:
  "lockRun initialLock [Export (1::nat), CallFlush, Resume 0, CallFlush, Export 2, Settle 0, Resume 1]
   = Some \<lparr>ls_flushLock = 2, ls_resolved = {1, 0}, ls_created = 3, ls_buffer = [],
           ls_calls = [Returned, Sending 2 [2]]\<rparr>"
  by (simp add: initialLock_def Let_def numeral_2_eq_2)

text \<open>
  Claim C9 says that at most one flush runs at any time. The code lets two run: two calls
  of \<open>flush\<close> made in the same tick both await the initial promise. The first resumes,
  stores its promise, drains span 1 and awaits its send. The second resumes as well (the
  promise it awaited is resolved), overwrites \<open>this.flushLock\<close>, drains nothing and returns,
  which resolves the promise now stored. A third call, made after span 2 was exported, finds
  that promise resolved, drains span 2 and sends it while the first call is still sending.
\<close>

theorem flushLock_lets_two_flushes_run:
  "lockRun initialLock
     [Export (1::nat), CallFlush, CallFlush, Resume 0, Resume 1, Export 2, CallFlush, Resume 2]
   = Some \<lparr>ls_flushLock = 3, ls_resolved = {2, 0}, ls_created = 4, ls_buffer = [],
           ls_calls = [Sending 1 [1], Returned, Sending 3 [2]]\<rparr>"
  by (simp add: initialLock_def Let_def numeral_2_eq_2)

end
